theory Spec2Isabelle
  imports Complex_Main "HOL-Library.Signed_Division"
begin

section \<open>Round-robin slot selection of the multithreaded benchmark\<close>

text \<open>
  The benchmark loop of \<^verbatim>\<open>main\<close> (mainSift.cpp, lines 152 to 192) builds, for each
  \<^verbatim>\<open>i\<close> from 1 to 16, a pool of \<^verbatim>\<open>i\<close> slots and runs
  \<^verbatim>\<open>tbb::parallel_for(0, iterations, ...)\<close>, whose body starts with
  \<^verbatim>\<open>int tid = ctr++ % i;\<close> on the shared \<^verbatim>\<open>std::atomic<int> ctr{0}\<close>.

  The counter is a 32-bit signed integer: it is modelled as an \<open>int\<close> with the
  two's-complement wrap-around of the atomic increment written out. The \<^verbatim>\<open>%\<close> of
  C++ truncates towards zero; that is \<open>smod\<close> on \<open>int\<close>.
\<close>

definition wrap32 :: "int \<Rightarrow> int" where
  "wrap32 v = (v + 2 ^ 31) mod 2 ^ 32 - 2 ^ 31"

text \<open>
  One execution of \<^verbatim>\<open>ctr++ % i\<close>: the post-increment hands out the old value of the
  counter and stores the incremented one. The result is the pair of the slot index
  \<^verbatim>\<open>tid\<close> and the new counter.
\<close>

definition acquireSlot :: "int \<Rightarrow> int \<Rightarrow> int \<times> int" where
  "acquireSlot ctr i = (ctr smod i, wrap32 (ctr + 1))"

text \<open>
  The atomic read-modify-write operations on \<^verbatim>\<open>ctr\<close> are totally ordered. The
  list below holds the slot indices handed out by the first \<open>n\<close> of them, in that
  order, starting from the counter value \<open>ctr\<close>.
\<close>

fun selections :: "nat \<Rightarrow> int \<Rightarrow> int \<Rightarrow> int list" where
  "selections 0 ctr i = []"
| "selections (Suc n) ctr i =
     (case acquireSlot ctr i of (tid, ctr') \<Rightarrow> tid # selections n ctr' i)"

text \<open>The benchmark round for a pool of \<open>i\<close> slots: \<^verbatim>\<open>ctr{0}\<close>, then \<open>n\<close> work units.\<close>

definition benchmark_slots :: "int \<Rightarrow> nat \<Rightarrow> int list" where
  "benchmark_slots i n = selections n 0 i"


section \<open>Floating-point values and conversions\<close>

text \<open>
  A value of the C++ types \<^verbatim>\<open>float\<close> and \<^verbatim>\<open>double\<close> is a finite real number or one of
  the three special values of IEEE 754 arithmetic. Every arithmetic operation computes
  the exact result and rounds it to the format of the operation, to the nearest
  representable value and to the even one of two nearest; the sign of zero is not
  modelled.
\<close>

datatype fp = Fin real | PInf | NInf | NaN

text \<open>Powers of two with an integer exponent, and the binary exponent of a real number.\<close>

definition pow2 :: "int \<Rightarrow> real" where
  "pow2 k = (if 0 \<le> k then 2 ^ nat k else 1 / 2 ^ nat (- k))"

definition exponent :: "real \<Rightarrow> int" where
  "exponent x = \<lfloor>log 2 \<bar>x\<bar>\<rfloor>"

text \<open>Rounding to the nearest integer, to the even one of two nearest.\<close>

definition rhe :: "real \<Rightarrow> int" where
  "rhe t = (let f = \<lfloor>t\<rfloor>; d = t - of_int f
            in if d < 1 / 2 then f else if 1 / 2 < d then f + 1
               else if even f then f else f + 1)"

text \<open>
  Rounding to a binary format with \<open>p\<close> significant bits whose normal numbers have the
  exponents from \<open>emin\<close> to \<open>emax\<close>: the result is a multiple of the unit in the last
  place of the binade of \<open>x\<close> (of the least binade for a subnormal \<open>x\<close>), and an
  infinity if it is beyond the largest finite number.
\<close>

definition rnd :: "nat \<Rightarrow> int \<Rightarrow> int \<Rightarrow> real \<Rightarrow> fp" where
  "rnd p emin emax x =
     (if x = 0 then Fin 0
      else let e = max (exponent x) emin;
               u = pow2 (e - int p + 1);
               v = of_int (rhe (x / u)) * u
           in if pow2 (emax + 1) \<le> \<bar>v\<bar> then (if 0 < x then PInf else NInf) else Fin v)"

text \<open>The formats of \<^verbatim>\<open>float\<close> (binary32) and \<^verbatim>\<open>double\<close> (binary64).\<close>

definition round32 :: "real \<Rightarrow> fp" where
  "round32 x = rnd 24 (- 126) 127 x"

definition round64 :: "real \<Rightarrow> fp" where
  "round64 x = rnd 53 (- 1022) 1023 x"

text \<open>
  The numbers of the format \<^verbatim>\<open>float\<close>: an integer of at most 24 bits times a power of
  two that is at least the least subnormal number, below the overflow threshold.
\<close>

definition is_float :: "real \<Rightarrow> bool" where
  "is_float x =
     (\<exists>m k. x = of_int m * pow2 k \<and> \<bar>m\<bar> < 2 ^ 24 \<and> - 149 \<le> k \<and> \<bar>x\<bar> < pow2 128)"

fun fneg :: "fp \<Rightarrow> fp" where
  "fneg (Fin a) = Fin (- a)"
| "fneg PInf = NInf"
| "fneg NInf = PInf"
| "fneg NaN = NaN"

text \<open>The operations on \<^verbatim>\<open>float\<close> operands.\<close>

fun fadd :: "fp \<Rightarrow> fp \<Rightarrow> fp" where
  "fadd (Fin a) (Fin b) = round32 (a + b)"
| "fadd NaN _ = NaN"
| "fadd _ NaN = NaN"
| "fadd PInf NInf = NaN"
| "fadd NInf PInf = NaN"
| "fadd PInf _ = PInf"
| "fadd _ PInf = PInf"
| "fadd NInf _ = NInf"
| "fadd _ NInf = NInf"

definition fsub :: "fp \<Rightarrow> fp \<Rightarrow> fp" where
  "fsub a b = fadd a (fneg b)"

text \<open>The sign of a value that is not a NaN, and the infinity of a given sign.\<close>

fun fsign :: "fp \<Rightarrow> real" where
  "fsign (Fin a) = sgn a"
| "fsign PInf = 1"
| "fsign NInf = - 1"
| "fsign NaN = 0"

definition inf_of_sign :: "real \<Rightarrow> fp" where
  "inf_of_sign s = (if 0 < s then PInf else if s < 0 then NInf else NaN)"

fun fmul :: "fp \<Rightarrow> fp \<Rightarrow> fp" where
  "fmul (Fin a) (Fin b) = round32 (a * b)"
| "fmul NaN _ = NaN"
| "fmul _ NaN = NaN"
| "fmul a b = inf_of_sign (fsign a * fsign b)"

text \<open>
  Division: a nonzero finite value divided by zero is an infinity, zero divided by zero
  and an infinity divided by an infinity are NaN, a finite value divided by an infinity
  is zero.
\<close>

fun fdiv :: "fp \<Rightarrow> fp \<Rightarrow> fp" where
  "fdiv (Fin a) (Fin b) = (if b = 0 then inf_of_sign a else round32 (a / b))"
| "fdiv NaN _ = NaN"
| "fdiv _ NaN = NaN"
| "fdiv (Fin a) _ = Fin 0"
| "fdiv a (Fin b) = inf_of_sign (fsign a * (if b < 0 then - 1 else 1))"
| "fdiv _ _ = NaN"

text \<open>
  The two operations on \<^verbatim>\<open>double\<close> operands that the program uses. A \<^verbatim>\<open>float\<close>
  operand is converted to \<^verbatim>\<open>double\<close> without a change of value.
\<close>

fun dadd :: "fp \<Rightarrow> fp \<Rightarrow> fp" where
  "dadd (Fin a) (Fin b) = round64 (a + b)"
| "dadd NaN _ = NaN"
| "dadd _ NaN = NaN"
| "dadd PInf NInf = NaN"
| "dadd NInf PInf = NaN"
| "dadd PInf _ = PInf"
| "dadd _ PInf = PInf"
| "dadd NInf _ = NInf"
| "dadd _ NInf = NInf"

fun dmul :: "fp \<Rightarrow> fp \<Rightarrow> fp" where
  "dmul (Fin a) (Fin b) = round64 (a * b)"
| "dmul NaN _ = NaN"
| "dmul _ NaN = NaN"
| "dmul a b = inf_of_sign (fsign a * fsign b)"

text \<open>The comparison \<^verbatim>\<open><\<close>.\<close>

fun flt :: "fp \<Rightarrow> fp \<Rightarrow> bool" where
  "flt (Fin a) (Fin b) = (a < b)"
| "flt NaN _ = False"
| "flt _ NaN = False"
| "flt _ NInf = False"
| "flt PInf _ = False"
| "flt _ _ = True"

fun fabs :: "fp \<Rightarrow> fp" where
  "fabs (Fin a) = Fin \<bar>a\<bar>"
| "fabs PInf = PInf"
| "fabs NInf = PInf"
| "fabs NaN = NaN"

text \<open>The square root, of the \<^verbatim>\<open>double\<close> that the argument is converted to.\<close>

fun fsqrt :: "fp \<Rightarrow> fp" where
  "fsqrt (Fin a) = (if a < 0 then NaN else round64 (sqrt a))"
| "fsqrt PInf = PInf"
| "fsqrt NInf = NaN"
| "fsqrt NaN = NaN"

text \<open>
  The conversion \<^verbatim>\<open>(int)\<close> of a floating-point value truncates towards zero. It is
  defined only if the truncated value is an \<^verbatim>\<open>int\<close> (32 bits): for a NaN, an infinity
  or a value out of range the behaviour is undefined, which is \<open>None\<close> here.
\<close>

definition trunc :: "real \<Rightarrow> int" where
  "trunc a = (if 0 \<le> a then \<lfloor>a\<rfloor> else \<lceil>a\<rceil>)"

fun f2i :: "fp \<Rightarrow> int option" where
  "f2i (Fin a) =
     (if - (2 ^ 31) \<le> trunc a \<and> trunc a < 2 ^ 31 then Some (trunc a) else None)"
| "f2i _ = None"

text \<open>The conversion of an \<^verbatim>\<open>int\<close> operand to \<^verbatim>\<open>float\<close>.\<close>

definition i2f :: "int \<Rightarrow> fp" where
  "i2f i = round32 (of_int i)"

text \<open>
  The literal \<^verbatim>\<open>1.41\<close> is a \<^verbatim>\<open>double\<close>: the representable number nearest to 1.41,
  which is a little less.
\<close>

definition literal_1_41 :: real where
  "literal_1_41 = 6350075474592399 / 2 ^ 52"

section \<open>Feature points and feature sets\<close>

text \<open>
  Modelled from the spec: the declarations of \<^verbatim>\<open>SiftPoint\<close>, \<^verbatim>\<open>SiftData\<close> and
  \<^verbatim>\<open>CudaImage\<close> are in the headers \<^verbatim>\<open>cudasift/cudaSift.h\<close> and
  \<^verbatim>\<open>cudasift/cudaImage.h\<close>, which are not among the sources. The records have
  the fields that mainSift.cpp reads, under the names it uses, with the types the data
  model of the specification gives them: a position, a scale, an orientation, a
  descriptor of 128 components, the index of the match in the paired set and its error,
  a score and an ambiguity. The descriptor \<^verbatim>\<open>float data[128]\<close> is a function from
  the index, a feature set is a count, a capacity and the host array behind the
  pointer \<^verbatim>\<open>h_data\<close>, as a function from the offset. The count never exceeds the
  capacity, so the loops over the points of a set read inside the array; the one read
  at an index that comes from the data is checked in the model.
\<close>

record SiftPoint =
  xpos :: fp
  ypos :: fp
  scale :: fp
  orientation :: fp
  score :: fp
  ambiguity :: fp
  match :: int
  match_error :: fp
  data :: "nat \<Rightarrow> fp"

record SiftData =
  numPts :: int
  maxPts :: int
  h_data :: "int \<Rightarrow> SiftPoint"

text \<open>
  An image is its width, its height and the host buffer of \<open>width * height\<close> values
  behind the pointer \<^verbatim>\<open>h_data\<close>, again as a function from the offset.
\<close>

record CudaImage =
  width :: int
  height :: int
  h_data :: "int \<Rightarrow> fp"

section \<open>The correspondence evaluator \<^verbatim>\<open>MatchAll\<close>\<close>

text \<open>
  The argument \<^verbatim>\<open>float *homography\<close> points to nine coefficients; it is modelled by
  the function from the index to the value stored there.
\<close>

type_synonym homography = "nat \<Rightarrow> fp"

text \<open>
  Lines 207 to 212, compiled in by \<^verbatim>\<open>#if 1\<close>: the assignments to the caller's array,
  in the order in which they are executed.
\<close>

definition overwrite_homography :: "homography \<Rightarrow> homography" where
  "overwrite_homography H =
     H(4 := Fin (- 1), 0 := Fin (- 1),
       7 := Fin 0, 6 := Fin 0, 3 := Fin 0, 1 := Fin 0,
       2 := Fin 1279, 5 := Fin 959)"

text \<open>Lines 219 to 221: the dot product of two descriptors.\<close>

definition dot :: "(nat \<Rightarrow> fp) \<Rightarrow> (nat \<Rightarrow> fp) \<Rightarrow> fp" where
  "dot data1 data2 =
     foldl (\<lambda>sum k. fadd sum (fmul (data1 k) (data2 k))) (Fin 0) [0..<128]"

text \<open>
  Lines 222 to 225. The denominator and the two quotients are the projection of the
  position of \<open>a\<close>; the source computes them inside the expressions for \<^verbatim>\<open>dx\<close> and
  \<^verbatim>\<open>dy\<close>.
\<close>

definition den :: "homography \<Rightarrow> SiftPoint \<Rightarrow> fp" where
  "den H a = fadd (fadd (fmul (H 6) (xpos a)) (fmul (H 7) (ypos a))) (H 8)"

definition projX :: "homography \<Rightarrow> SiftPoint \<Rightarrow> fp" where
  "projX H a =
     fdiv (fadd (fadd (fmul (H 0) (xpos a)) (fmul (H 1) (ypos a))) (H 2)) (den H a)"

definition projY :: "homography \<Rightarrow> SiftPoint \<Rightarrow> fp" where
  "projY H a =
     fdiv (fadd (fadd (fmul (H 3) (xpos a)) (fmul (H 4) (ypos a))) (H 5)) (den H a)"

definition dx_of :: "homography \<Rightarrow> SiftPoint \<Rightarrow> SiftPoint \<Rightarrow> fp" where
  "dx_of H a b = fsub (projX H a) (xpos b)"

definition dy_of :: "homography \<Rightarrow> SiftPoint \<Rightarrow> SiftPoint \<Rightarrow> fp" where
  "dy_of H a b = fsub (projY H a) (ypos b)"

definition err_of :: "homography \<Rightarrow> SiftPoint \<Rightarrow> SiftPoint \<Rightarrow> fp" where
  "err_of H a b =
     fadd (fmul (dx_of H a b) (dx_of H a b)) (fmul (dy_of H a b) (dy_of H a b))"

text \<open>
  What line 237 prints for a candidate: the mark chosen in lines 229 to 236, the index
  \<^verbatim>\<open>j\<close>, the dot product, \<^verbatim>\<open>(int)sqrt(err)\<close>, scale, \<^verbatim>\<open>(int)\<close> orientation and position
  of the candidate, \<^verbatim>\<open>(int)dx\<close> and \<^verbatim>\<open>(int)dy\<close>. A converted value is \<open>None\<close> where
  the conversion is undefined.
\<close>

record MatchLine =
  ml_mark :: string
  ml_j :: int
  ml_sum :: fp
  ml_root :: "int option"
  ml_scale :: fp
  ml_orientation :: "int option"
  ml_xpos :: fp
  ml_ypos :: fp
  ml_dx :: "int option"
  ml_dy :: "int option"

text \<open>Lines 229 to 236.\<close>

definition mark_of :: "bool \<Rightarrow> bool \<Rightarrow> string" where
  "mark_of is_match close =
     (if is_match \<and> close then '' *''
      else if is_match then '' -''
      else if close then '' +''
      else ''  '')"

text \<open>Line 237: the line printed for the candidate \<open>b\<close> of index \<open>j\<close>.\<close>

definition printed_line :: "homography \<Rightarrow> SiftPoint \<Rightarrow> int \<Rightarrow> SiftPoint \<Rightarrow> MatchLine" where
  "printed_line H a j b =
     \<lparr>ml_mark = mark_of (j = match a) (flt (err_of H a b) (Fin 100)), ml_j = j,
      ml_sum = dot (data a) (data b),
      ml_root = f2i (fsqrt (err_of H a b)), ml_scale = scale b,
      ml_orientation = f2i (orientation b),
      ml_xpos = xpos b, ml_ypos = ypos b,
      ml_dx = f2i (dx_of H a b), ml_dy = f2i (dy_of H a b)\<rparr>"

text \<open>
  The body of the loop over the candidates (lines 218 to 238), on the state made of the
  flag \<^verbatim>\<open>found\<close> and the lines printed so far.
\<close>

definition candidate_step ::
  "homography \<Rightarrow> SiftPoint \<Rightarrow> (int \<Rightarrow> SiftPoint) \<Rightarrow> int \<Rightarrow> bool \<times> MatchLine list
     \<Rightarrow> bool \<times> MatchLine list" where
  "candidate_step H a sift2 j st =
     (let b = sift2 j;
          err = err_of H a b;
          found = (if flt err (Fin 100) then True else fst st)
      in (found,
          if flt err (Fin 100) \<or> j = match a
          then snd st @ [printed_line H a j b]
          else snd st))"

text \<open>The loop \<^verbatim>\<open>for (int j=0;j<numPts2;j++)\<close>.\<close>

function candidate_loop ::
  "homography \<Rightarrow> SiftPoint \<Rightarrow> (int \<Rightarrow> SiftPoint) \<Rightarrow> int \<Rightarrow> int \<Rightarrow> bool \<times> MatchLine list
     \<Rightarrow> bool \<times> MatchLine list" where
  "candidate_loop H a sift2 numPts2 j st =
     (if j < numPts2
      then candidate_loop H a sift2 numPts2 (j + 1) (candidate_step H a sift2 j st)
      else st)"
  by pat_completeness auto
termination
  by (relation "measure (\<lambda>(H, a, sift2, numPts2, j, st). nat (numPts2 - j))") auto

declare candidate_loop.simps [simp del]

text \<open>
  What is printed for one point of the first set: line 215, then the lines of its
  candidates.
\<close>

record MatchBlock =
  mb_i :: int
  mb_scale :: fp
  mb_orientation :: "int option"
  mb_xpos :: fp
  mb_ypos :: fp
  mb_lines :: "MatchLine list"

text \<open>
  The body of the loop over the points of the first set (lines 214 to 242), on the
  state made of \<^verbatim>\<open>numFound\<close> and the blocks printed so far.
\<close>

definition point_step ::
  "homography \<Rightarrow> (int \<Rightarrow> SiftPoint) \<Rightarrow> (int \<Rightarrow> SiftPoint) \<Rightarrow> int \<Rightarrow> int
     \<Rightarrow> int \<times> MatchBlock list \<Rightarrow> int \<times> MatchBlock list" where
  "point_step H sift1 sift2 numPts2 i st =
     (let a = sift1 i;
          r = candidate_loop H a sift2 numPts2 0 (False, [])
      in ((if fst r then fst st + 1 else fst st),
          snd st @
          [\<lparr>mb_i = i, mb_scale = scale a, mb_orientation = f2i (orientation a),
            mb_xpos = xpos a, mb_ypos = ypos a, mb_lines = snd r\<rparr>]))"

function point_loop ::
  "homography \<Rightarrow> (int \<Rightarrow> SiftPoint) \<Rightarrow> (int \<Rightarrow> SiftPoint) \<Rightarrow> int \<Rightarrow> int \<Rightarrow> int
     \<Rightarrow> int \<times> MatchBlock list \<Rightarrow> int \<times> MatchBlock list" where
  "point_loop H sift1 sift2 numPts1 numPts2 i st =
     (if i < numPts1
      then point_loop H sift1 sift2 numPts1 numPts2 (i + 1)
             (point_step H sift1 sift2 numPts2 i st)
      else st)"
  by pat_completeness auto
termination
  by (relation "measure (\<lambda>(H, sift1, sift2, numPts1, numPts2, i, st). nat (numPts1 - i))")
    auto

declare point_loop.simps [simp del]

text \<open>
  The output of \<^verbatim>\<open>MatchAll\<close>: the blocks, the two numbers of line 244 and the nine
  coefficients printed by lines 245 to 247.
\<close>

record MatchOutput =
  mo_blocks :: "MatchBlock list"
  mo_numFound :: int
  mo_numPts1 :: int
  mo_homography :: "fp list"

text \<open>
  \<^verbatim>\<open>MatchAll\<close> returns nothing; its effects are the output and the assignments to the
  caller's array, so the model returns the output and the array.
\<close>

definition MatchAll :: "SiftData \<Rightarrow> SiftData \<Rightarrow> homography \<Rightarrow> MatchOutput \<times> homography" where
  "MatchAll siftData1 siftData2 homography =
     (let sift1 = SiftData.h_data siftData1;
          sift2 = SiftData.h_data siftData2;
          numPts1 = numPts siftData1;
          numPts2 = numPts siftData2;
          H = overwrite_homography homography;
          r = point_loop H sift1 sift2 numPts1 numPts2 0 (0, [])
      in (\<lparr>mo_blocks = snd r, mo_numFound = fst r, mo_numPts1 = numPts1,
           mo_homography = map H [0..<9]\<rparr>, H))"


section \<open>The overlay renderer \<^verbatim>\<open>PrintMatchData\<close>\<close>

text \<open>
  The renderer converts floating-point values to \<^verbatim>\<open>int\<close>, reads the second feature
  set at an index taken from the data and writes to the image buffer at computed
  offsets, none of which it checks. Where the behaviour of the C++ program is
  undefined, the model returns an error that says why. That includes the overflow of
  the \<^verbatim>\<open>int\<close> arithmetic on offsets: the model computes on the integers and checks
  that each value the program computes is an \<^verbatim>\<open>int\<close> (32 bits).
\<close>

datatype error = UndefinedConversion | OutOfBoundsRead | OutOfBoundsWrite | IntegerOverflow

definition int_ok :: "int \<Rightarrow> bool" where
  "int_ok v = (- (2 ^ 31) \<le> v \<and> v < 2 ^ 31)"

text \<open>The read \<^verbatim>\<open>sift2[k]\<close> at an index that comes from the data.\<close>

definition read_point :: "SiftData \<Rightarrow> int \<Rightarrow> error + SiftPoint" where
  "read_point siftData k =
     (if 0 \<le> k \<and> k < maxPts siftData then Inr (SiftData.h_data siftData k)
      else Inl OutOfBoundsRead)"

text \<open>The assignment \<^verbatim>\<open>h_img[p] = v\<close> to a buffer of \<open>w * h\<close> values.\<close>

definition store :: "int \<Rightarrow> int \<Rightarrow> int \<Rightarrow> fp \<Rightarrow> (int \<Rightarrow> fp) \<Rightarrow> error + (int \<Rightarrow> fp)" where
  "store w h p v h_img =
     (if 0 \<le> p \<and> p < w * h then Inr (h_img(p := v)) else Inl OutOfBoundsWrite)"

text \<open>
  A loop whose body may fail: the body runs for each value of the loop variable in
  turn, on the buffer the previous iteration left, and the first failure ends the run.
  The loop \<^verbatim>\<open>for (int l=0;l<len;l++)\<close> runs its body for the values \<open>[0..len - 1]\<close>.
\<close>

fun for_each :: "(int \<Rightarrow> 's \<Rightarrow> error + 's) \<Rightarrow> int list \<Rightarrow> 's \<Rightarrow> error + 's" where
  "for_each body [] s = Inr s"
| "for_each body (l # ls) s =
     (case body l s of Inl e \<Rightarrow> Inl e | Inr s' \<Rightarrow> for_each body ls s')"

text \<open>Line 280: the number of steps of a match line.\<close>

definition line_len :: "fp \<Rightarrow> fp \<Rightarrow> int option" where
  "line_len dx dy = f2i (if flt (fabs dy) (fabs dx) then fabs dx else fabs dy)"

text \<open>Lines 282 to 284: the body of the loop that draws a match line.\<close>

definition line_step ::
  "int \<Rightarrow> int \<Rightarrow> SiftPoint \<Rightarrow> fp \<Rightarrow> fp \<Rightarrow> int \<Rightarrow> int \<Rightarrow> (int \<Rightarrow> fp) \<Rightarrow> error + (int \<Rightarrow> fp)" where
  "line_step w h p dx dy len l h_img =
     (case f2i (fadd (xpos p) (fdiv (fmul dx (i2f l)) (i2f len))) of
        None \<Rightarrow> Inl UndefinedConversion
      | Some x \<Rightarrow>
          (case f2i (fadd (ypos p) (fdiv (fmul dy (i2f l)) (i2f len))) of
             None \<Rightarrow> Inl UndefinedConversion
           | Some y \<Rightarrow>
               if int_ok (y * w) \<and> int_ok (y * w + x)
               then store w h (y * w + x) (Fin 255) h_img
               else Inl IntegerOverflow))"

text \<open>Lines 265 to 287: the match line of the point \<open>p\<close> of the first set.\<close>

definition draw_line ::
  "int \<Rightarrow> int \<Rightarrow> SiftData \<Rightarrow> SiftPoint \<Rightarrow> (int \<Rightarrow> fp) \<Rightarrow> error + (int \<Rightarrow> fp)" where
  "draw_line w h siftData2 p h_img =
     (let k = match p in
      if flt (match_error p) (i2f 5) then
        (case read_point siftData2 k of
           Inl e \<Rightarrow> Inl e
         | Inr q \<Rightarrow>
             (let dx = fsub (xpos q) (xpos p);
                  dy = fsub (ypos q) (ypos p)
              in case line_len dx dy of
                   None \<Rightarrow> Inl UndefinedConversion
                 | Some len \<Rightarrow> for_each (line_step w h p dx dy len) [0..len - 1] h_img))
      else Inr h_img)"

text \<open>
  Lines 288 to 290: the rounded position and the radius of the marker. The additions
  of the literal \<^verbatim>\<open>0.5\<close> and the product with the literal \<^verbatim>\<open>1.41\<close> are operations on
  \<^verbatim>\<open>double\<close>.
\<close>

definition marker_geometry :: "int \<Rightarrow> int \<Rightarrow> SiftPoint \<Rightarrow> error + int \<times> int \<times> int" where
  "marker_geometry w h p =
     (case f2i (dadd (xpos p) (Fin (1 / 2))) of
        None \<Rightarrow> Inl UndefinedConversion
      | Some x \<Rightarrow>
          (case f2i (dadd (ypos p) (Fin (1 / 2))) of
             None \<Rightarrow> Inl UndefinedConversion
           | Some y \<Rightarrow>
               (case f2i (dmul (Fin literal_1_41) (scale p)) of
                  None \<Rightarrow> Inl UndefinedConversion
                | Some sc \<Rightarrow>
                    if int_ok (w - x) \<and> int_ok (w - x - 2) \<and> int_ok (h - y) \<and> int_ok (h - y - 2)
                    then Inr (x, y, min x (min y (min (w - x - 2) (min (h - y - 2) sc))))
                    else Inl IntegerOverflow)))"

text \<open>
  Lines 294 and 297: the body of either marker loop, a chain of four assignments of
  the value \<open>v\<close>, carried out from the right.
\<close>

definition marker_step ::
  "int \<Rightarrow> int \<Rightarrow> int \<Rightarrow> fp \<Rightarrow> int \<Rightarrow> (int \<Rightarrow> fp) \<Rightarrow> error + (int \<Rightarrow> fp)" where
  "marker_step w h p v k h_img =
     (if int_ok (k * w) \<and> int_ok (p + k * w) \<and> int_ok (p - k * w) \<and> int_ok (p + k)
          \<and> int_ok (p - k)
      then
        (case store w h (p + k * w) v h_img of
           Inl e \<Rightarrow> Inl e
         | Inr h1 \<Rightarrow>
             (case store w h (p - k * w) v h1 of
                Inl e \<Rightarrow> Inl e
              | Inr h2 \<Rightarrow>
                  (case store w h (p + k) v h2 of
                     Inl e \<Rightarrow> Inl e
                   | Inr h3 \<Rightarrow> store w h (p - k) v h3)))
      else Inl IntegerOverflow)"

text \<open>The offsets that iteration \<open>k\<close> of a marker loop with the centre \<open>p\<close> assigns to.\<close>

definition cross :: "int \<Rightarrow> int \<Rightarrow> int \<Rightarrow> int set" where
  "cross w p k = {p + k * w, p - k * w, p + k, p - k}"

text \<open>Lines 291 to 297: the two passes, for the position \<open>(x, y)\<close> and the radius \<open>s\<close>.\<close>

definition marker_passes ::
  "int \<Rightarrow> int \<Rightarrow> int \<Rightarrow> int \<Rightarrow> int \<Rightarrow> (int \<Rightarrow> fp) \<Rightarrow> error + (int \<Rightarrow> fp)" where
  "marker_passes w h x y s h_img =
     (let p = y * w + x;
          p1 = p + (w + 1)
      in if int_ok (y * w) \<and> int_ok p \<and> int_ok (w + 1) \<and> int_ok p1
         then
           (case for_each (marker_step w h p1 (Fin 0)) [0..s - 1] h_img of
              Inl e \<Rightarrow> Inl e
            | Inr h1 \<Rightarrow>
                (let p2 = p1 - (w + 1)
                 in for_each (marker_step w h p2 (Fin 255)) [0..s - 1] h1))
         else Inl IntegerOverflow)"

text \<open>Lines 288 to 297: the marker of the point \<open>p\<close>.\<close>

definition draw_marker :: "int \<Rightarrow> int \<Rightarrow> SiftPoint \<Rightarrow> (int \<Rightarrow> fp) \<Rightarrow> error + (int \<Rightarrow> fp)" where
  "draw_marker w h p h_img =
     (case marker_geometry w h p of
        Inl e \<Rightarrow> Inl e
      | Inr (x, y, s) \<Rightarrow> marker_passes w h x y s h_img)"

text \<open>The body of the loop over the points of the first set (lines 265 to 297).\<close>

definition draw_point ::
  "int \<Rightarrow> int \<Rightarrow> SiftData \<Rightarrow> SiftData \<Rightarrow> int \<Rightarrow> (int \<Rightarrow> fp) \<Rightarrow> error + (int \<Rightarrow> fp)" where
  "draw_point w h siftData1 siftData2 j h_img =
     (let p = SiftData.h_data siftData1 j
      in case draw_line w h siftData2 p h_img of
           Inl e \<Rightarrow> Inl e
         | Inr h1 \<Rightarrow> draw_marker w h p h1)"

text \<open>
  \<^verbatim>\<open>PrintMatchData\<close> changes the buffer of the image in place; the model returns the
  image with the new buffer.
\<close>

definition PrintMatchData :: "SiftData \<Rightarrow> SiftData \<Rightarrow> CudaImage \<Rightarrow> error + CudaImage" where
  "PrintMatchData siftData1 siftData2 img =
     (let numPts = numPts siftData1;
          h_img = CudaImage.h_data img;
          w = width img;
          h = height img
      in case for_each (draw_point w h siftData1 siftData2) [0..numPts - 1] h_img of
           Inl e \<Rightarrow> Inl e
         | Inr h_img' \<Rightarrow> Inr (img\<lparr>h_data := h_img'\<rparr>))"

section \<open>The classification in the words of the specification\<close>

text \<open>
  The specification projects the point through the homography handed to the evaluator
  and calls the correspondence confirmed when the squared error is below the threshold
  of 100, rejected otherwise. This is that classification, with the marks \<^verbatim>\<open>*\<close> and
  \<^verbatim>\<open>-\<close> that \<^verbatim>\<open>MatchAll\<close> prints for the two cases, to be compared with what
  \<^verbatim>\<open>MatchAll\<close> does.
\<close>

definition spec_evaluate_mark :: "homography \<Rightarrow> SiftPoint \<Rightarrow> SiftPoint \<Rightarrow> string" where
  "spec_evaluate_mark H a b = (if flt (err_of H a b) (Fin 100) then '' *'' else '' -'')"

text \<open>
  The specification gives the radius of the marker as the least of \<open>x\<close>, \<open>y\<close>,
  \<open>width - x - 2\<close>, \<open>height - y - 2\<close> and the floor of 1.41 times the scale.
\<close>

definition claimed_radius :: "int \<Rightarrow> int \<Rightarrow> int \<Rightarrow> int \<Rightarrow> real \<Rightarrow> int" where
  "claimed_radius w h x y sc =
     min x (min y (min (w - x - 2) (min (h - y - 2) \<lfloor>141 / 100 * sc\<rfloor>)))"

text \<open>
  The specification has the marker drawn in two passes, the outline of maximal
  intensity first and then the ring of zero intensity one row and one column further.
  These are the two loops of lines 293 to 297 in that order, to be compared with
  \<open>marker_passes\<close>.
\<close>

definition marker_passes_claimed_order ::
  "int \<Rightarrow> int \<Rightarrow> int \<Rightarrow> int \<Rightarrow> int \<Rightarrow> (int \<Rightarrow> fp) \<Rightarrow> error + (int \<Rightarrow> fp)" where
  "marker_passes_claimed_order w h x y s h_img =
     (let p = y * w + x
      in case for_each (marker_step w h p (Fin 255)) [0..s - 1] h_img of
           Inl e \<Rightarrow> Inl e
         | Inr h1 \<Rightarrow> for_each (marker_step w h (p + (w + 1)) (Fin 0)) [0..s - 1] h1)"

section \<open>Concrete inputs\<close>

text \<open>
  Small inputs on which the definitions above are evaluated: a feature point at a
  given position, with a given scale and a given match, whose other fields are
  ordinary values; a feature set of one point; an image of a given size whose pixels
  are all zero; and two homographies, the identity and one with a last coefficient of
  zero.
\<close>

definition point_at :: "real \<Rightarrow> real \<Rightarrow> real \<Rightarrow> int \<Rightarrow> SiftPoint" where
  "point_at x y sc m =
     \<lparr>xpos = Fin x, ypos = Fin y, scale = Fin sc, orientation = Fin 0, score = Fin 0,
      ambiguity = Fin 0, match = m, match_error = Fin 1, data = (\<lambda>k. Fin 0)\<rparr>"

definition single_set :: "SiftPoint \<Rightarrow> SiftData" where
  "single_set p = \<lparr>numPts = 1, maxPts = 1, h_data = (\<lambda>i. p)\<rparr>"

definition blank_image :: "int \<Rightarrow> int \<Rightarrow> CudaImage" where
  "blank_image w h = \<lparr>width = w, height = h, h_data = (\<lambda>p. Fin 0)\<rparr>"

definition identity_homography :: homography where
  "identity_homography = (\<lambda>k. if k = 0 \<or> k = 4 \<or> k = 8 then Fin 1 else Fin 0)"

definition singular_homography :: homography where
  "singular_homography = (\<lambda>k. if k = 0 \<or> k = 4 then Fin 1 else Fin 0)"

section \<open>Properties of the rounding\<close>

text \<open>Powers of two and the exponent.\<close>

lemma pow2_powr: "pow2 k = 2 powr (of_int k)"
  by (simp add: pow2_def powr_int)

lemma pow2_pos [simp]: "0 < pow2 k"
  by (simp add: pow2_powr)

lemma pow2_add: "pow2 (a + b) = pow2 a * pow2 b"
  by (simp add: pow2_powr powr_add)

lemma pow2_nat: "pow2 (int n) = 2 ^ n"
  by (simp add: pow2_def)

lemma pow2_of_nonneg: "0 \<le> d \<Longrightarrow> pow2 d = of_int (2 ^ nat d)"
  by (simp add: pow2_def)

lemma pow2_diff: "pow2 a / pow2 b = pow2 (a - b)"
  by (simp add: pow2_powr powr_diff)

lemma exponent_eq:
  assumes "pow2 e \<le> \<bar>x\<bar>" and "\<bar>x\<bar> < pow2 (e + 1)"
  shows "exponent x = e"
proof -
  have "0 < pow2 e" by (rule pow2_pos)
  then have "0 < \<bar>x\<bar>" using assms(1) by linarith
  then show ?thesis
    unfolding exponent_def using assms
    by (subst floor_log_eq_powr_iff) (simp_all add: pow2_powr)
qed

lemma exponent_less:
  assumes "x \<noteq> 0" and "\<bar>x\<bar> < pow2 n"
  shows "exponent x < n"
proof -
  have "log 2 \<bar>x\<bar> < of_int n"
    using assms by (simp add: pow2_powr log_less_iff)
  then show ?thesis
    unfolding exponent_def by (simp add: floor_less_iff)
qed

lemma rhe_of_int [simp]: "rhe (of_int n) = n"
  by (simp add: rhe_def)

text \<open>A number that the format represents is rounded to itself.\<close>

lemma rnd_exact:
  assumes x: "x = of_int m * pow2 k" and m: "\<bar>m\<bar> < 2 ^ p"
    and k: "emin - int p + 1 \<le> k" and hi: "\<bar>x\<bar> < pow2 (emax + 1)"
  shows "rnd p emin emax x = Fin x"
proof (cases "x = 0")
  case True
  then show ?thesis by (simp add: rnd_def)
next
  case False
  define q where "q = max (exponent x) emin - int p + 1"
  have "\<bar>pow2 k\<bar> = pow2 k"
    by (rule abs_of_pos) (rule pow2_pos)
  then have "\<bar>x\<bar> = of_int \<bar>m\<bar> * pow2 k"
    by (simp add: x abs_mult)
  also have "\<dots> < 2 ^ p * pow2 k"
  proof (intro mult_strict_right_mono pow2_pos)
    have "real_of_int \<bar>m\<bar> < real_of_int (2 ^ p)"
      using m by (simp only: of_int_less_iff)
    then show "real_of_int \<bar>m\<bar> < 2 ^ p" by simp
  qed
  also have "\<dots> = pow2 (int p + k)"
    by (simp add: pow2_add pow2_nat)
  finally have "exponent x < int p + k"
    using False by (intro exponent_less)
  then have qk: "q \<le> k"
    using k by (simp add: q_def)
  have "x / pow2 q = of_int m * pow2 (k - q)"
    by (simp add: x pow2_diff [symmetric])
  also have "\<dots> = of_int (m * 2 ^ nat (k - q))"
    using qk by (simp add: pow2_of_nonneg)
  finally have d: "x / pow2 q = of_int (m * 2 ^ nat (k - q))" .
  have "of_int (rhe (x / pow2 q)) * pow2 q = x / pow2 q * pow2 q"
    by (simp only: d rhe_of_int)
  also have "\<dots> = x"
    using pow2_pos [of q] by (simp del: pow2_pos)
  finally have "of_int (rhe (x / pow2 q)) * pow2 q = x" .
  then show ?thesis
    using False hi by (simp add: rnd_def Let_def q_def)
qed

text \<open>Numbers of the two formats: integers of few bits, and such integers over a power of two.\<close>

lemma round32_exact: "is_float x \<Longrightarrow> round32 x = Fin x"
  unfolding is_float_def round32_def by (auto intro!: rnd_exact)

lemma is_float_int: "\<bar>n\<bar> < 2 ^ 24 \<Longrightarrow> is_float (of_int n)"
  unfolding is_float_def
  by (rule exI [of _ n], rule exI [of _ 0]) (simp add: pow2_def)

lemma is_float_uminus: "is_float x \<Longrightarrow> is_float (- x)"
  unfolding is_float_def
proof (elim exE conjE)
  fix m k
  assume "x = of_int m * pow2 k" "\<bar>m\<bar> < 2 ^ 24" "- 149 \<le> k" "\<bar>x\<bar> < pow2 128"
  then show "\<exists>m k. - x = of_int m * pow2 k \<and> \<bar>m\<bar> < 2 ^ 24 \<and> - 149 \<le> k \<and> \<bar>- x\<bar> < pow2 128"
    by (intro exI [of _ "- m"] exI [of _ k]) simp
qed

lemma round32_int: "\<bar>n\<bar> < 2 ^ 24 \<Longrightarrow> round32 (of_int n) = Fin (of_int n)"
  by (intro round32_exact is_float_int)

lemma round32_numeral [simp]:
  "numeral n < (2 ^ 24 :: int) \<Longrightarrow> round32 (numeral n) = Fin (numeral n)"
  "numeral n < (2 ^ 24 :: int) \<Longrightarrow> round32 (- numeral n) = Fin (- numeral n)"
  "round32 0 = Fin 0" "round32 1 = Fin 1"
  using round32_int [of "numeral n"] round32_int [of "- numeral n"] round32_int [of 0]
    round32_int [of 1]
  by simp_all

lemma round32_dyadic:
  assumes "\<bar>m\<bar> < 2 ^ 24" and "j \<le> 149"
  shows "round32 (of_int m / 2 ^ j) = Fin (of_int m / 2 ^ j)"
proof (rule round32_exact)
  have "\<bar>real_of_int m\<bar> / 2 ^ j \<le> \<bar>real_of_int m\<bar>"
    by (simp add: field_simps mult_le_cancel_left1)
  moreover have "\<bar>real_of_int m\<bar> < 2 ^ 24"
    using assms(1) by (metis of_int_abs of_int_less_iff of_int_numeral of_int_power)
  ultimately have "\<bar>real_of_int m / 2 ^ j\<bar> < pow2 128"
    by (simp add: pow2_def)
  then show "is_float (of_int m / 2 ^ j)"
    unfolding is_float_def using assms
    by (intro exI [of _ m] exI [of _ "- int j"]) (simp add: pow2_def)
qed

lemma round64_int: "\<bar>n\<bar> < 2 ^ 53 \<Longrightarrow> round64 (of_int n) = Fin (of_int n)"
  unfolding round64_def
  by (rule rnd_exact [where m = n and k = 0]) (simp_all add: pow2_def)

lemma round64_dyadic:
  assumes "\<bar>m\<bar> < 2 ^ 53" and "j \<le> 1074"
  shows "round64 (of_int m / 2 ^ j) = Fin (of_int m / 2 ^ j)"
  unfolding round64_def
proof (rule rnd_exact [where m = m and k = "- int j"])
  have "\<bar>real_of_int m\<bar> / 2 ^ j \<le> \<bar>real_of_int m\<bar>"
    by (simp add: field_simps mult_le_cancel_left1)
  moreover have "\<bar>real_of_int m\<bar> < 2 ^ 53"
    using assms(1) by (metis of_int_abs of_int_less_iff of_int_numeral of_int_power)
  ultimately show "\<bar>real_of_int m / 2 ^ j\<bar> < pow2 (1023 + 1)"
    by (simp add: pow2_def)
qed (use assms in \<open>simp_all add: pow2_def\<close>)

text \<open>Rounding a number of a known binade.\<close>

lemma rnd_binade:
  assumes "pow2 e \<le> \<bar>x\<bar>" and "\<bar>x\<bar> < pow2 (e + 1)" and "emin \<le> e"
  shows "rnd p emin emax x =
           (let u = pow2 (e - int p + 1); v = of_int (rhe (x / u)) * u
            in if pow2 (emax + 1) \<le> \<bar>v\<bar> then (if 0 < x then PInf else NInf) else Fin v)"
proof -
  have "0 < pow2 e" by (rule pow2_pos)
  then have "0 < \<bar>x\<bar>" using assms(1) by linarith
  then have "x \<noteq> 0" by simp
  moreover have "max (exponent x) emin = e"
    using exponent_eq [OF assms(1,2)] assms(3) by simp
  ultimately show ?thesis
    by (simp add: rnd_def)
qed

text \<open>Bounds of the exponent and of the rounded quotient.\<close>

lemma exponent_bounds:
  assumes "x \<noteq> 0"
  shows "pow2 (exponent x) \<le> \<bar>x\<bar>" and "\<bar>x\<bar> < pow2 (exponent x + 1)"
proof -
  have "0 < \<bar>x\<bar>" using assms by simp
  then have "2 powr (of_int (exponent x)) \<le> \<bar>x\<bar> \<and> \<bar>x\<bar> < 2 powr (of_int (exponent x + 1))"
    using floor_log_eq_powr_iff [of "\<bar>x\<bar>" 2 "exponent x"] by (simp add: exponent_def)
  then show "pow2 (exponent x) \<le> \<bar>x\<bar>" and "\<bar>x\<bar> < pow2 (exponent x + 1)"
    by (simp_all add: pow2_powr)
qed

lemma pow2_mono: "a \<le> b \<Longrightarrow> pow2 a \<le> pow2 b"
  by (simp add: pow2_powr)

lemma rhe_bounds: "\<lfloor>t\<rfloor> \<le> rhe t" "rhe t \<le> \<lceil>t\<rceil>"
proof -
  show "\<lfloor>t\<rfloor> \<le> rhe t"
    by (simp add: rhe_def Let_def)
  have "\<lfloor>t\<rfloor> + 1 \<le> \<lceil>t\<rceil>" if "t \<noteq> of_int \<lfloor>t\<rfloor>"
    using that by (metis ceiling_altdef order_refl)
  moreover have "\<lfloor>t\<rfloor> \<le> \<lceil>t\<rceil>"
    by (rule floor_le_ceiling)
  ultimately show "rhe t \<le> \<lceil>t\<rceil>"
    by (auto simp: rhe_def Let_def)
qed

lemma rhe_abs_le:
  assumes "\<bar>t\<bar> < of_int n"
  shows "\<bar>rhe t\<bar> \<le> n"
proof -
  have "t < of_int n" "- of_int n < t"
    using assms by auto
  then have "\<lceil>t\<rceil> \<le> n" "- n \<le> \<lfloor>t\<rfloor>"
    by (simp_all add: ceiling_le_iff le_floor_iff less_imp_le)
  then show ?thesis
    using rhe_bounds [of t] by linarith
qed

text \<open>The result of rounding is a number of the format.\<close>

lemma rnd_representable:
  assumes r: "rnd p emin emax x = Fin v" and p: "0 < p"
  shows "\<exists>m k. v = of_int m * pow2 k \<and> \<bar>m\<bar> < 2 ^ p \<and> emin - int p + 1 \<le> k
           \<and> \<bar>v\<bar> < pow2 (emax + 1)"
proof (cases "x = 0")
  case True
  then have "v = 0" using r by (simp add: rnd_def)
  then show ?thesis
    by (intro exI [of _ 0] exI [of _ "emin - int p + 1"]) simp
next
  case False
  define e where "e = max (exponent x) emin"
  define q where "q = e - int p + 1"
  define M where "M = rhe (x / pow2 q)"
  have v: "v = of_int M * pow2 q" and hi: "\<bar>v\<bar> < pow2 (emax + 1)"
    using r False by (auto simp: rnd_def Let_def e_def q_def M_def split: if_splits)
  have "\<bar>x\<bar> < pow2 (exponent x + 1)"
    by (rule exponent_bounds [OF False])
  also have "\<dots> \<le> pow2 (e + 1)"
    by (intro pow2_mono) (simp add: e_def)
  finally have "\<bar>x\<bar> / pow2 q < pow2 (e + 1) / pow2 q"
    by (simp add: divide_strict_right_mono)
  also have "\<dots> = 2 ^ p"
    by (simp add: pow2_diff q_def pow2_nat)
  finally have "\<bar>x / pow2 q\<bar> < of_int (2 ^ p)"
    by (simp add: abs_divide abs_of_pos)
  then have M: "\<bar>M\<bar> \<le> 2 ^ p"
    unfolding M_def by (rule rhe_abs_le)
  show ?thesis
  proof (cases "\<bar>M\<bar> < 2 ^ p")
    case True
    with v hi show ?thesis
      by (intro exI [of _ M] exI [of _ q]) (simp add: q_def e_def)
  next
    case False
    with M have aM: "\<bar>M\<bar> = 2 ^ p" by simp
    obtain n where n: "p = Suc n"
      using p by (cases p) simp_all
    define M' where "M' = (if 0 \<le> M then 2 ^ n else - (2 ^ n) :: int)"
    have M2: "M = 2 * M'"
      using aM by (auto simp: M'_def n abs_if split: if_splits)
    have "pow2 1 = 2"
      by (simp add: pow2_def)
    then have "pow2 (q + 1) = pow2 q * 2"
      using pow2_add [of q 1] by simp
    then have "v = of_int M' * pow2 (q + 1)"
      by (simp add: v M2)
    moreover have "\<bar>M'\<bar> < 2 ^ p"
      by (simp add: M'_def n)
    ultimately show ?thesis
      using hi by (intro exI [of _ M'] exI [of _ "q + 1"]) (simp add: q_def e_def)
  qed
qed

lemma round32_is_float: "round32 x = Fin v \<Longrightarrow> is_float v"
  unfolding round32_def is_float_def
  using rnd_representable [of 24 "- 126" 127 x v] by simp

lemma fdiv_one_round32: "fdiv (round32 x) (Fin 1) = round32 x"
proof (cases "round32 x")
  case (Fin v)
  then have "round32 v = Fin v"
    by (intro round32_exact round32_is_float)
  with Fin show ?thesis by simp
qed (simp_all add: inf_of_sign_def)

section \<open>Properties of the round-robin slot selection\<close>

text \<open>
  As long as the counter stays below \<open>2 ^ 31\<close> the increment does not wrap and the
  remainder is the one of \<open>mod\<close>; so the draws from a counter that starts at \<open>c\<close> are
  the remainders of \<open>c\<close>, \<open>c + 1\<close>, and so on.
\<close>

lemma wrap32_id: "- (2 ^ 31) \<le> v \<Longrightarrow> v < 2 ^ 31 \<Longrightarrow> wrap32 v = v"
  unfolding wrap32_def by (simp add: mod_pos_pos_trivial)

lemma smod_nonneg: "0 \<le> c \<Longrightarrow> 0 < i \<Longrightarrow> c smod i = c mod (i::int)"
  by (cases "c = 0") (simp_all add: signed_modulo_int_def)

lemma selections_eq:
  "0 < i \<Longrightarrow> 0 \<le> c \<Longrightarrow> c + int n < 2 ^ 31 \<Longrightarrow>
     selections n c i = map (\<lambda>k. (c + int k) mod i) [0..<n]"
proof (induction n arbitrary: c)
  case 0
  show ?case by simp
next
  case (Suc n)
  have "c + 1 < 2 ^ 31" and "- (2 ^ 31) \<le> c + 1"
    using Suc.prems by auto
  then have w: "wrap32 (c + 1) = c + 1"
    by (rule wrap32_id[rotated])
  have s: "c smod i = c mod i"
    using Suc.prems by (simp add: smod_nonneg)
  have ih: "selections n (c + 1) i = map (\<lambda>k. (c + 1 + int k) mod i) [0..<n]"
    using Suc.prems by (intro Suc.IH) simp_all
  have "[0..<Suc n] = 0 # map Suc [0..<n]"
    by (simp add: upt_conv_Cons map_Suc_upt del: upt_Suc)
  then have "map (\<lambda>k. (c + int k) mod i) [0..<Suc n] =
      c mod i # map (\<lambda>k. (c + 1 + int k) mod i) [0..<n]"
    by (simp add: comp_def add.assoc del: upt_Suc)
  then show ?case
    using ih by (simp add: acquireSlot_def w s del: upt_Suc)
qed

text \<open>How often a remainder occurs among those of the first \<open>n\<close> numbers.\<close>

lemma count_mod_upt:
  "0 < w \<Longrightarrow> i < w \<Longrightarrow>
     count_list (map (\<lambda>k. k mod w) [0..<n]) i = n div w + (if i < n mod w then 1 else 0)"
proof (induction n)
  case 0
  then show ?case by simp
next
  case (Suc n)
  show ?case
  proof (cases "Suc (n mod w) = w")
    case True
    then have "Suc n mod w = 0" and "Suc n div w = Suc (n div w)"
      by (simp_all add: mod_Suc div_Suc)
    then show ?thesis using Suc True by auto
  next
    case False
    then have "Suc n mod w = Suc (n mod w)" and "Suc n div w = n div w"
      by (simp_all add: mod_Suc div_Suc)
    then show ?thesis using Suc False by auto
  qed
qed

lemma count_list_map_int: "count_list (map int xs) (int i) = count_list xs i"
  by (induction xs) simp_all

lemma ceil_div_nat:
  assumes "0 < (w::nat)"
  shows "(n + w - 1) div w = n div w + (if n mod w = 0 then 0 else 1)"
proof -
  define q where "q = n div w"
  define r where "r = n mod w"
  have n: "n = w * q + r" and r: "r < w"
    using assms by (simp_all add: q_def r_def)
  show ?thesis
  proof (cases "r = 0")
    case True
    have "(n + w - 1) div w = q"
    proof (rule div_nat_eqI)
      show "w * q \<le> n + w - 1" using n True assms by simp
      show "n + w - 1 < w * Suc q" using n True assms by simp
    qed
    then show ?thesis using True by (simp add: q_def r_def)
  next
    case False
    have "(n + w - 1) div w = Suc q"
    proof (rule div_nat_eqI)
      show "w * Suc q \<le> n + w - 1" using n False by simp
      show "n + w - 1 < w * Suc (Suc q)" using n r False by simp
    qed
    then show ?thesis using False by (simp add: q_def r_def)
  qed
qed

lemma benchmark_slots_eq:
  assumes "1 \<le> w" and "int n < 2 ^ 31"
  shows "benchmark_slots (int w) n = map (\<lambda>k. int (k mod w)) [0..<n]"
proof -
  have "selections n 0 (int w) = map (\<lambda>k. (0 + int k) mod int w) [0..<n]"
    using assms by (intro selections_eq) simp_all
  then show ?thesis
    by (simp add: benchmark_slots_def zmod_int)
qed

text \<open>
  The bound on the number of draws is that of the type \<^verbatim>\<open>int\<close> of \<^verbatim>\<open>iterations\<close>. A
  counter that has been incremented \<open>2 ^ 31\<close> times has wrapped to the least \<^verbatim>\<open>int\<close>,
  and the remainder of a negative counter is negative.
\<close>

lemma counter_wraps:
  "wrap32 (2 ^ 31 - 1 + 1) = - (2 ^ 31)" and "fst (acquireSlot (- (2 ^ 31)) 3) = - 2"
  by (simp_all add: wrap32_def acquireSlot_def signed_modulo_int_def)

text \<open>
  Claim C2. For every pool size \<open>w\<close> from 1 to 16 and every number \<open>n\<close> of work units
  (an \<^verbatim>\<open>int\<close>, so below \<open>2 ^ 31\<close>), the slot indices handed out by the benchmark round
  are \<open>0, 1, ..., w - 1, 0, 1, ...\<close> in this order. Hence no index reaches \<open>w\<close>, every
  slot is selected \<open>n div w\<close> times or the quotient rounded up, and a pool of 4 slots run
  for 8 work units hands out 0, 1, 2, 3, 0, 1, 2, 3.
\<close>

theorem round_robin_selection:
  assumes "1 \<le> w" and "w \<le> 16" and "int n < 2 ^ 31"
  shows "benchmark_slots (int w) n = map (\<lambda>k. int (k mod w)) [0..<n]
       \<and> (\<forall>t \<in> set (benchmark_slots (int w) n). 0 \<le> t \<and> t < int w)
       \<and> (\<forall>i < w. count_list (benchmark_slots (int w) n) (int i) = n div w
                \<or> count_list (benchmark_slots (int w) n) (int i) = (n + w - 1) div w)
       \<and> benchmark_slots 4 8 = [0, 1, 2, 3, 0, 1, 2, 3]"
proof -
  have eq: "benchmark_slots (int w) n = map (\<lambda>k. int (k mod w)) [0..<n]"
    using assms by (intro benchmark_slots_eq)
  have rng: "\<forall>t \<in> set (benchmark_slots (int w) n). 0 \<le> t \<and> t < int w"
    using assms(1) unfolding eq by auto
  have cnt: "count_list (benchmark_slots (int w) n) (int i) = n div w
         \<or> count_list (benchmark_slots (int w) n) (int i) = (n + w - 1) div w" if "i < w" for i
  proof -
    have "benchmark_slots (int w) n = map int (map (\<lambda>k. k mod w) [0..<n])"
      unfolding eq by simp
    then have "count_list (benchmark_slots (int w) n) (int i) =
        n div w + (if i < n mod w then 1 else 0)"
      using assms(1) that by (simp only: count_list_map_int count_mod_upt)
    moreover have "(n + w - 1) div w = n div w + (if n mod w = 0 then 0 else 1)"
      using assms(1) by (intro ceil_div_nat) simp
    ultimately show ?thesis
      by (cases "i < n mod w") auto
  qed
  have "benchmark_slots (int 4) 8 = map (\<lambda>k. int (k mod 4)) [0..<8]"
    by (intro benchmark_slots_eq) simp_all
  then have ex: "benchmark_slots 4 8 = [0, 1, 2, 3, 0, 1, 2, 3]"
    by (simp add: upt_rec)
  show ?thesis
    by (intro conjI allI impI; (rule eq rng ex | (rule cnt, assumption)))
qed

theorem round_robin_selection_witness:
  "benchmark_slots (int 4) 8 = map (\<lambda>k. int (k mod 4)) [0..<8]
   \<and> list_all (\<lambda>t. 0 \<le> t \<and> t < int 4) (benchmark_slots (int 4) 8)
   \<and> count_list (benchmark_slots (int 4) 8) (int 1) = 2"
proof -
  have a: "(1::nat) \<le> 4" "(4::nat) \<le> 16" "int 8 < 2 ^ 31"
    by simp_all
  note r = round_robin_selection [OF a]
  have e: "benchmark_slots (int 4) 8 = map (\<lambda>k. int (k mod 4)) [0..<8]"
    using r by (rule conjunct1)
  have b: "\<forall>t \<in> set (benchmark_slots (int 4) 8). 0 \<le> t \<and> t < int 4"
    using r by (elim conjE)
  have "\<forall>i < 4. count_list (benchmark_slots (int 4) 8) (int i) = 8 div 4
      \<or> count_list (benchmark_slots (int 4) 8) (int i) = (8 + 4 - 1) div 4"
    using r by (elim conjE)
  then have "count_list (benchmark_slots (int 4) 8) (int 1) = 8 div 4
      \<or> count_list (benchmark_slots (int 4) 8) (int 1) = (8 + 4 - 1) div 4"
    by (elim allE [of _ 1] impE) simp_all
  then have c: "count_list (benchmark_slots (int 4) 8) (int 1) = 2"
    by simp
  from b have "list_all (\<lambda>t. 0 \<le> t \<and> t < int 4) (benchmark_slots (int 4) 8)"
    by (simp only: list_all_iff)
  with e c show ?thesis
    by (intro conjI)
qed

section \<open>Properties of the correspondence evaluator\<close>

lemma overwrite_homography_values:
  "overwrite_homography H 0 = Fin (- 1)" "overwrite_homography H 1 = Fin 0"
  "overwrite_homography H 2 = Fin 1279" "overwrite_homography H 3 = Fin 0"
  "overwrite_homography H 4 = Fin (- 1)" "overwrite_homography H 5 = Fin 959"
  "overwrite_homography H 6 = Fin 0" "overwrite_homography H 7 = Fin 0"
  "overwrite_homography H 8 = H 8" "overwrite_homography H (Suc 0) = Fin 0"
  by (simp_all add: overwrite_homography_def)

lemma overwrite_homography_idem:
  "overwrite_homography (overwrite_homography H) = overwrite_homography H"
  by (rule ext) (simp add: overwrite_homography_def)

lemma snd_MatchAll: "snd (MatchAll s1 s2 H) = overwrite_homography H"
  by (simp add: MatchAll_def Let_def)

text \<open>The loops as folds over the values of the loop variable.\<close>

lemma candidate_loop_foldl:
  "candidate_loop H a sift2 n2 j st =
     foldl (\<lambda>st j. candidate_step H a sift2 j st) st [j..n2 - 1]"
proof (induction H a sift2 n2 j st rule: candidate_loop.induct)
  case (1 H a sift2 n2 j st)
  show ?case
  proof (cases "j < n2")
    case True
    then have "[j..n2 - 1] = j # [j + 1..n2 - 1]"
      by (simp add: upto_rec1)
    with True 1 show ?thesis
      by (subst candidate_loop.simps) simp
  next
    case False
    then show ?thesis
      by (subst candidate_loop.simps) simp
  qed
qed

lemma point_loop_foldl:
  "point_loop H sift1 sift2 n1 n2 i st =
     foldl (\<lambda>st i. point_step H sift1 sift2 n2 i st) st [i..n1 - 1]"
proof (induction H sift1 sift2 n1 n2 i st rule: point_loop.induct)
  case (1 H sift1 sift2 n1 n2 i st)
  show ?case
  proof (cases "i < n1")
    case True
    then have "[i..n1 - 1] = i # [i + 1..n1 - 1]"
      by (simp add: upto_rec1)
    with True 1 show ?thesis
      by (subst point_loop.simps) simp
  next
    case False
    then show ?thesis
      by (subst point_loop.simps) simp
  qed
qed

text \<open>What one candidate adds to the lines, and whether it sets the flag.\<close>

lemma candidate_step_eq:
  "candidate_step H a sift2 j st =
     (fst st \<or> flt (err_of H a (sift2 j)) (Fin 100),
      snd st @ (if flt (err_of H a (sift2 j)) (Fin 100) \<or> j = match a
                then [printed_line H a j (sift2 j)] else []))"
  by (simp add: candidate_step_def Let_def)

lemma foldl_flag_lines:
  assumes "\<And>j st. step j st = (fst st \<or> c j, snd st @ l j)"
  shows "foldl (\<lambda>st j. step j st) st js =
           (fst st \<or> (\<exists>j \<in> set js. c j), snd st @ concat (map l js))"
proof (induction js arbitrary: st)
  case Nil
  show ?case by simp
next
  case (Cons j js)
  have "foldl (\<lambda>st j. step j st) st (j # js) = foldl (\<lambda>st j. step j st) (step j st) js"
    by simp
  also have "\<dots> = (fst (step j st) \<or> (\<exists>j \<in> set js. c j), snd (step j st) @ concat (map l js))"
    by (rule Cons.IH)
  also have "\<dots> = (fst st \<or> (\<exists>j \<in> set (j # js). c j), snd st @ concat (map l (j # js)))"
    by (auto simp: assms)
  finally show ?case .
qed

lemma candidate_loop_eq:
  "candidate_loop H a sift2 n2 0 (False, []) =
     ((\<exists>j \<in> set [0..n2 - 1]. flt (err_of H a (sift2 j)) (Fin 100)),
      concat (map (\<lambda>j. if flt (err_of H a (sift2 j)) (Fin 100) \<or> j = match a
                        then [printed_line H a j (sift2 j)] else []) [0..n2 - 1]))"
  unfolding candidate_loop_foldl
  by (subst foldl_flag_lines [where step = "candidate_step H a sift2", OF candidate_step_eq])
    simp

lemma foldl_count_blocks:
  fixes f :: "'a \<Rightarrow> int"
  assumes "\<And>i st. step i st = (fst st + f i, snd st @ [b i])"
  shows "foldl (\<lambda>st i. step i st) st is = (fst st + sum_list (map f is), snd st @ map b is)"
proof (induction "is" arbitrary: st)
  case Nil
  show ?case by simp
next
  case (Cons i "is")
  have "foldl (\<lambda>st i. step i st) st (i # is) = foldl (\<lambda>st i. step i st) (step i st) is"
    by simp
  also have "\<dots> = (fst (step i st) + sum_list (map f is), snd (step i st) @ map b is)"
    by (rule Cons.IH)
  also have "\<dots> = (fst st + sum_list (map f (i # is)), snd st @ map b (i # is))"
    by (simp add: assms add.assoc)
  finally show ?case .
qed

lemma point_step_eq:
  "point_step H sift1 sift2 n2 i st =
     (fst st + (if fst (candidate_loop H (sift1 i) sift2 n2 0 (False, [])) then 1 else 0),
      snd st @
      [\<lparr>mb_i = i, mb_scale = scale (sift1 i), mb_orientation = f2i (orientation (sift1 i)),
        mb_xpos = xpos (sift1 i), mb_ypos = ypos (sift1 i),
        mb_lines = snd (candidate_loop H (sift1 i) sift2 n2 0 (False, []))\<rparr>])"
  by (simp add: point_step_def Let_def)

lemma MatchAll_blocks:
  "mo_blocks (fst (MatchAll s1 s2 H)) =
     map (\<lambda>i. \<lparr>mb_i = i, mb_scale = scale (SiftData.h_data s1 i),
                mb_orientation = f2i (orientation (SiftData.h_data s1 i)),
                mb_xpos = xpos (SiftData.h_data s1 i), mb_ypos = ypos (SiftData.h_data s1 i),
                mb_lines = snd (candidate_loop (overwrite_homography H) (SiftData.h_data s1 i)
                             (SiftData.h_data s2) (numPts s2) 0 (False, []))\<rparr>)
       [0..numPts s1 - 1]"
  unfolding MatchAll_def Let_def point_loop_foldl
  by (subst foldl_count_blocks [where step = "point_step _ _ _ _", OF point_step_eq]) simp

lemma MatchAll_numFound:
  "mo_numFound (fst (MatchAll s1 s2 H)) =
     sum_list (map (\<lambda>i. if fst (candidate_loop (overwrite_homography H) (SiftData.h_data s1 i)
                             (SiftData.h_data s2) (numPts s2) 0 (False, [])) then 1 else 0)
       [0..numPts s1 - 1])"
  unfolding MatchAll_def Let_def point_loop_foldl
  by (subst foldl_count_blocks [where step = "point_step _ _ _ _", OF point_step_eq]) simp

lemma MatchAll_block_lines:
  assumes "0 \<le> i" and "i < numPts s1"
  shows "mb_lines (mo_blocks (fst (MatchAll s1 s2 H)) ! nat i) =
           concat (map (\<lambda>j. if flt (err_of (overwrite_homography H) (SiftData.h_data s1 i)
                                        (SiftData.h_data s2 j)) (Fin 100)
                                  \<or> j = match (SiftData.h_data s1 i)
                               then [printed_line (overwrite_homography H) (SiftData.h_data s1 i) j
                                       (SiftData.h_data s2 j)]
                               else [])
                     [0..numPts s2 - 1])"
proof -
  have len: "nat i < length [0..numPts s1 - 1]"
    using assms by simp
  have nth: "[0..numPts s1 - 1] ! nat i = i"
    using assms by (simp add: nth_upto)
  show ?thesis
    unfolding MatchAll_blocks
    by (simp only: nth_map [OF len] nth candidate_loop_eq MatchBlock.simps snd_conv)
qed

lemma filter_concat_keyed:
  assumes "distinct js" and "\<And>j x. x \<in> set (f j) \<Longrightarrow> key x = j"
  shows "filter (\<lambda>x. key x = m) (concat (map f js)) = (if m \<in> set js then f m else [])"
  using assms(1)
proof (induction js)
  case Nil
  show ?case by simp
next
  case (Cons j js)
  have a: "filter (\<lambda>x. key x = m) (f j) = (if j = m then f j else [])"
    using assms(2) by (auto simp: filter_empty_conv filter_id_conv)
  show ?case
    using Cons by (auto simp: a)
qed

lemmas example_defs =
  point_at_def single_set_def identity_homography_def singular_homography_def

lemmas geometry_defs =
  err_of_def dx_of_def dy_of_def projX_def projY_def den_def fsub_def inf_of_sign_def

lemma upto_0_0: "[0..(1::int) - 1] = [0]"
  by (simp add: upto_rec1)

text \<open>
  Claim C6, amended. For every point \<open>a\<close> of the first set, with the recorded match
  index \<open>m\<close>, the evaluator computes the denominator, the projected position and the
  squared error against the candidate \<open>b\<close> of index \<open>m\<close> by the formulas of the claim,
  each operation rounded to single precision, in which the coefficients 0 to 7 are the
  fixed values \<open>-1, 0, 1279, 0, -1, 959, 0, 0\<close> that \<^verbatim>\<open>MatchAll\<close> has written over those
  of its argument, and coefficient 8 is the one it was given. If \<open>m\<close> is the index of a
  candidate, exactly one printed line is about that candidate, and it is marked \<^verbatim>\<open>*\<close>
  (confirmed) if the rounded error is below 100 and \<^verbatim>\<open>-\<close> (rejected) otherwise; if \<open>m\<close>
  is no index of the second set, no line is.
\<close>

theorem MatchAll_marks_recorded_match:
  assumes "0 \<le> i" and "i < numPts s1"
  shows "let a = SiftData.h_data s1 i; m = match a; b = SiftData.h_data s2 m;
             H' = snd (MatchAll s1 s2 H);
             denom = fadd (fadd (fmul (Fin 0) (xpos a)) (fmul (Fin 0) (ypos a))) (H 8);
             px = fdiv (fadd (fadd (fmul (Fin (- 1)) (xpos a)) (fmul (Fin 0) (ypos a))) (Fin 1279))
                    denom;
             py = fdiv (fadd (fadd (fmul (Fin 0) (xpos a)) (fmul (Fin (- 1)) (ypos a))) (Fin 959))
                    denom;
             err = fadd (fmul (fsub px (xpos b)) (fsub px (xpos b)))
                     (fmul (fsub py (ypos b)) (fsub py (ypos b)))
         in den H' a = denom \<and> projX H' a = px \<and> projY H' a = py \<and> err_of H' a b = err
          \<and> map ml_mark
               (filter (\<lambda>L. ml_j L = m) (mb_lines (mo_blocks (fst (MatchAll s1 s2 H)) ! nat i)))
             = (if 0 \<le> m \<and> m < numPts s2
                then [if flt err (Fin 100) then '' *'' else '' -''] else [])"
proof -
  define a where "a = SiftData.h_data s1 i"
  define m where "m = match a"
  define b where "b = SiftData.h_data s2 m"
  define H' where "H' = overwrite_homography H"
  define f where "f = (\<lambda>j. if flt (err_of H' a (SiftData.h_data s2 j)) (Fin 100) \<or> j = match a
                           then [printed_line H' a j (SiftData.h_data s2 j)] else [])"
  have key: "ml_j x = j" if "x \<in> set (f j)" for j x
    using that by (auto simp: f_def printed_line_def split: if_splits)
  have lines: "mb_lines (mo_blocks (fst (MatchAll s1 s2 H)) ! nat i) =
      concat (map f [0..numPts s2 - 1])"
    unfolding f_def H'_def a_def by (rule MatchAll_block_lines [OF assms])
  have "filter (\<lambda>L. ml_j L = m) (concat (map f [0..numPts s2 - 1])) =
      (if m \<in> set [0..numPts s2 - 1] then f m else [])"
    by (rule filter_concat_keyed [OF distinct_upto key])
  also have "\<dots> = (if 0 \<le> m \<and> m < numPts s2 then [printed_line H' a m b] else [])"
    by (auto simp: f_def m_def b_def)
  finally have marks: "map ml_mark
      (filter (\<lambda>L. ml_j L = m) (mb_lines (mo_blocks (fst (MatchAll s1 s2 H)) ! nat i))) =
      (if 0 \<le> m \<and> m < numPts s2
       then [if flt (err_of H' a b) (Fin 100) then '' *'' else '' -''] else [])"
    unfolding lines by (simp add: printed_line_def mark_of_def m_def)
  have geo: "den H' a = fadd (fadd (fmul (Fin 0) (xpos a)) (fmul (Fin 0) (ypos a))) (H 8)"
    "projX H' a = fdiv (fadd (fadd (fmul (Fin (- 1)) (xpos a)) (fmul (Fin 0) (ypos a)))
       (Fin 1279)) (den H' a)"
    "projY H' a = fdiv (fadd (fadd (fmul (Fin 0) (xpos a)) (fmul (Fin (- 1)) (ypos a)))
       (Fin 959)) (den H' a)"
    by (simp_all add: den_def projX_def projY_def H'_def overwrite_homography_values)
  have err: "err_of H' a b = fadd (fmul (fsub (projX H' a) (xpos b)) (fsub (projX H' a) (xpos b)))
      (fmul (fsub (projY H' a) (ypos b)) (fsub (projY H' a) (ypos b)))"
    by (simp add: err_of_def dx_of_def dy_of_def)
  show ?thesis
    unfolding Let_def snd_MatchAll
    using marks geo err
    by (simp only: a_def [symmetric] m_def [symmetric] b_def [symmetric] H'_def [symmetric])
qed

text \<open>
  The theorem at a point at (10, 10) whose match lies at (1269, 949), where the
  overwritten coefficients project it: the match is confirmed.
\<close>

theorem MatchAll_marks_recorded_match_witness:
  "map ml_mark
     (filter (\<lambda>L. ml_j L = 0)
        (mb_lines (mo_blocks (fst (MatchAll (single_set (point_at 10 10 1 0))
           (single_set (point_at 1269 949 1 0)) identity_homography)) ! 0)))
   = ['' *'']"
proof -
  have a: "(0::int) \<le> 0" "0 < numPts (single_set (point_at 10 10 1 0))"
    by (simp_all add: single_set_def)
  show ?thesis
    using MatchAll_marks_recorded_match [OF a, of "single_set (point_at 1269 949 1 0)"
        identity_homography]
    by (simp add: Let_def example_defs fsub_def)
qed

text \<open>
  Claim C6 as stated fails: a point at (10, 10) whose match lies at (10, 10) too,
  evaluated under the identity homography, has error 0 by the formulas of the claim and
  would be confirmed; \<^verbatim>\<open>MatchAll\<close> marks it rejected.
\<close>

theorem MatchAll_supplied_homography_counterexample:
  "map ml_mark
     (filter (\<lambda>L. ml_j L = 0)
        (mb_lines (mo_blocks (fst (MatchAll (single_set (point_at 10 10 1 0))
           (single_set (point_at 10 10 1 0)) identity_homography)) ! 0)))
   = ['' -'']
   \<and> spec_evaluate_mark identity_homography (point_at 10 10 1 0) (point_at 10 10 1 0) = '' *''"
proof -
  have "mb_lines (mo_blocks (fst (MatchAll (single_set (point_at 10 10 1 0))
           (single_set (point_at 10 10 1 0)) identity_homography)) ! nat 0) =
       [printed_line (overwrite_homography identity_homography) (point_at 10 10 1 0) 0
          (point_at 10 10 1 0)]"
    by (subst MatchAll_block_lines) (simp_all add: single_set_def upto_0_0 point_at_def)
  then show ?thesis
    by (simp add: printed_line_def mark_of_def spec_evaluate_mark_def geometry_defs
        overwrite_homography_values example_defs)
qed

text \<open>Only the nine coefficients are read.\<close>

lemma candidate_step_cong:
  assumes "\<And>k. k < 9 \<Longrightarrow> H k = H' k"
  shows "candidate_step H = candidate_step H'"
proof -
  have e: "H 0 = H' 0" "H 1 = H' 1" "H 2 = H' 2" "H 3 = H' 3" "H 4 = H' 4" "H 5 = H' 5"
    "H 6 = H' 6" "H 7 = H' 7" "H 8 = H' 8" "H (Suc 0) = H' (Suc 0)"
    by (simp_all add: assms)
  have d: "den H a = den H' a" for a
    by (simp add: den_def e)
  have p: "projX H a = projX H' a" "projY H a = projY H' a" for a
    by (simp_all add: projX_def projY_def d e)
  have g: "err_of H a b = err_of H' a b" "dx_of H a b = dx_of H' a b"
    "dy_of H a b = dy_of H' a b" for a b
    by (simp_all add: err_of_def dx_of_def dy_of_def p)
  have pl: "printed_line H = printed_line H'"
    by (intro ext) (simp add: printed_line_def g)
  show ?thesis
    by (intro ext) (simp only: candidate_step_eq g pl)
qed

lemma MatchAll_output_cong:
  assumes "H 8 = H' 8"
  shows "fst (MatchAll s1 s2 H) = fst (MatchAll s1 s2 H')"
proof -
  have agree: "overwrite_homography H k = overwrite_homography H' k" if "k < 9" for k
  proof -
    have "k \<in> {0, 1, 2, 3, 4, 5, 6, 7, 8}"
      using that by auto
    then show ?thesis
      using assms by (auto simp: overwrite_homography_def)
  qed
  have "candidate_step (overwrite_homography H) = candidate_step (overwrite_homography H')"
    by (rule candidate_step_cong) (rule agree)
  then have "candidate_loop (overwrite_homography H) = candidate_loop (overwrite_homography H')"
    by (intro ext) (simp add: candidate_loop_foldl)
  then have "point_step (overwrite_homography H) = point_step (overwrite_homography H')"
    by (intro ext) (simp add: point_step_def)
  then have "point_loop (overwrite_homography H) = point_loop (overwrite_homography H')"
    by (intro ext) (simp add: point_loop_foldl)
  moreover have "map (overwrite_homography H) [0..<9] = map (overwrite_homography H') [0..<9]"
    using agree by simp
  ultimately show ?thesis
    by (simp add: MatchAll_def Let_def)
qed

text \<open>
  Claim C9. Whatever homography the caller passes, after \<^verbatim>\<open>MatchAll\<close> its coefficients 0
  to 7 are \<open>-1, 0, 1279, 0, -1, 959, 0, 0\<close> and coefficient 8 is the one passed in; these
  are the nine values printed; and the whole output is the same for any two
  homographies with the same coefficient 8.
\<close>

theorem MatchAll_overwrites_homography:
  assumes "H 8 = H' 8"
  shows "map (snd (MatchAll s1 s2 H)) [0..<9] =
           [Fin (- 1), Fin 0, Fin 1279, Fin 0, Fin (- 1), Fin 959, Fin 0, Fin 0, H 8]
       \<and> mo_homography (fst (MatchAll s1 s2 H)) = map (snd (MatchAll s1 s2 H)) [0..<9]
       \<and> fst (MatchAll s1 s2 H) = fst (MatchAll s1 s2 H')"
proof -
  have "[0..<9] = [0, 1, 2, 3, 4, 5, 6, 7, 8::nat]"
    by (simp add: upt_rec)
  then have "map (snd (MatchAll s1 s2 H)) [0..<9] =
      [Fin (- 1), Fin 0, Fin 1279, Fin 0, Fin (- 1), Fin 959, Fin 0, Fin 0, H 8]"
    by (simp add: snd_MatchAll overwrite_homography_values)
  moreover have "mo_homography (fst (MatchAll s1 s2 H)) = map (snd (MatchAll s1 s2 H)) [0..<9]"
    by (simp add: MatchAll_def Let_def)
  ultimately show ?thesis
    using MatchAll_output_cong [of H H', OF assms] by simp
qed

text \<open>
  The theorem at the identity homography and the homography whose coefficients are
  all 1.
\<close>

theorem MatchAll_overwrites_homography_witness:
  "map (snd (MatchAll (single_set (point_at 10 10 1 0)) (single_set (point_at 10 10 1 0))
       identity_homography)) [0..<9] =
     [Fin (- 1), Fin 0, Fin 1279, Fin 0, Fin (- 1), Fin 959, Fin 0, Fin 0, Fin 1]
   \<and> fst (MatchAll (single_set (point_at 10 10 1 0)) (single_set (point_at 10 10 1 0))
       identity_homography) =
     fst (MatchAll (single_set (point_at 10 10 1 0)) (single_set (point_at 10 10 1 0))
       (\<lambda>k. Fin 1))"
proof -
  have a: "identity_homography 8 = (\<lambda>k. Fin 1) 8"
    by (simp add: identity_homography_def)
  have b: "identity_homography 8 = Fin 1"
    by (simp add: identity_homography_def)
  show ?thesis
    using MatchAll_overwrites_homography [of identity_homography "\<lambda>k. Fin 1"
        "single_set (point_at 10 10 1 0)" "single_set (point_at 10 10 1 0)", OF a]
    unfolding b by (intro conjI) (elim conjE, assumption)+
qed

text \<open>
  Claim C8 as stated fails for the projection that \<^verbatim>\<open>MatchAll\<close> carries out: given the
  identity homography, the point at (10, 10) is projected to (1269, 949).
\<close>

theorem MatchAll_identity_projection_counterexample:
  "projX (snd (MatchAll (single_set (point_at 10 10 1 0)) (single_set (point_at 10 10 1 0))
      identity_homography)) (point_at 10 10 1 0) = Fin 1269
   \<and> projY (snd (MatchAll (single_set (point_at 10 10 1 0)) (single_set (point_at 10 10 1 0))
      identity_homography)) (point_at 10 10 1 0) = Fin 949
   \<and> xpos (point_at 10 10 1 0) = Fin 10 \<and> ypos (point_at 10 10 1 0) = Fin 10"
  by (simp add: snd_MatchAll projX_def projY_def den_def overwrite_homography_values example_defs)

text \<open>
  Claim C8, amended. The projection formulas map every position whose coordinates are
  numbers of the type \<^verbatim>\<open>float\<close> to itself, with no rounding error, when the coefficients
  are those of the identity; \<^verbatim>\<open>MatchAll\<close> given the identity homography overwrites the
  coefficients 0 to 7 first and projects the position \<open>(x, y)\<close> to \<open>1279 - x\<close> and
  \<open>959 - y\<close>, each rounded to single precision.
\<close>

theorem projection_identity_and_overwritten:
  assumes "is_float x" and "is_float y"
  shows "projX identity_homography (p\<lparr>xpos := Fin x, ypos := Fin y\<rparr>) = Fin x
   \<and> projY identity_homography (p\<lparr>xpos := Fin x, ypos := Fin y\<rparr>) = Fin y
   \<and> projX (snd (MatchAll s1 s2 identity_homography)) (p\<lparr>xpos := Fin x, ypos := Fin y\<rparr>)
       = round32 (1279 - x)
   \<and> projY (snd (MatchAll s1 s2 identity_homography)) (p\<lparr>xpos := Fin x, ypos := Fin y\<rparr>)
       = round32 (959 - y)"
proof -
  have r: "round32 x = Fin x" "round32 y = Fin y" "round32 (- x) = Fin (- x)"
    "round32 (- y) = Fin (- y)"
    using assms by (simp_all add: round32_exact is_float_uminus)
  have "fdiv (round32 (1279 - x)) (Fin 1) = round32 (1279 - x)"
    "fdiv (round32 (959 - y)) (Fin 1) = round32 (959 - y)"
    by (rule fdiv_one_round32)+
  then show ?thesis
    by (simp add: snd_MatchAll projX_def projY_def den_def overwrite_homography_values
        identity_homography_def r)
qed

text \<open>
  The theorem at the position (10, 20): the formulas with the identity give (10, 20),
  \<^verbatim>\<open>MatchAll\<close> given the identity projects it to (1269, 939).
\<close>

theorem projection_identity_and_overwritten_witness:
  "projX identity_homography ((point_at 0 0 1 0)\<lparr>xpos := Fin 10, ypos := Fin 20\<rparr>) = Fin 10
   \<and> projY identity_homography ((point_at 0 0 1 0)\<lparr>xpos := Fin 10, ypos := Fin 20\<rparr>) = Fin 20
   \<and> projX (snd (MatchAll (single_set (point_at 0 0 1 0)) (single_set (point_at 0 0 1 0))
        identity_homography)) ((point_at 0 0 1 0)\<lparr>xpos := Fin 10, ypos := Fin 20\<rparr>)
       = Fin 1269
   \<and> projY (snd (MatchAll (single_set (point_at 0 0 1 0)) (single_set (point_at 0 0 1 0))
        identity_homography)) ((point_at 0 0 1 0)\<lparr>xpos := Fin 10, ypos := Fin 20\<rparr>)
       = Fin 939"
proof -
  have a: "is_float 10" "is_float 20"
    using is_float_int [of 10] is_float_int [of 20] by simp_all
  show ?thesis
    using projection_identity_and_overwritten [OF a, of "point_at 0 0 1 0"
        "single_set (point_at 0 0 1 0)" "single_set (point_at 0 0 1 0)"]
    by simp
qed

text \<open>
  With the coefficients 6 and 7 overwritten by zero, the denominator of a point at a
  finite position is the last coefficient: it is zero exactly when that one is.
\<close>

lemma den_overwritten:
  assumes "xpos a = Fin x" and "ypos a = Fin y" and "H 8 = Fin c" and "is_float c"
  shows "den (overwrite_homography H) a = Fin c"
  by (simp add: den_def overwrite_homography_values assms round32_exact)

text \<open>Values that are not finite, and how they spread through the error.\<close>

lemma fdiv_by_zero: "fdiv n (Fin 0) = PInf \<or> fdiv n (Fin 0) = NInf \<or> fdiv n (Fin 0) = NaN"
  by (cases n) (simp_all add: inf_of_sign_def)

lemma fsub_not_finite:
  assumes "v = PInf \<or> v = NInf \<or> v = NaN"
  shows "fsub v c = PInf \<or> fsub v c = NInf \<or> fsub v c = NaN"
  using assms by (cases c) (auto simp: fsub_def)

lemma fmul_square_not_finite:
  assumes "d = PInf \<or> d = NInf \<or> d = NaN"
  shows "fmul d d = PInf \<or> fmul d d = NaN"
  using assms by (auto simp: inf_of_sign_def)

lemma fadd_not_finite:
  assumes "u = PInf \<or> u = NaN" and "v = PInf \<or> v = NaN"
  shows "fadd u v = PInf \<or> fadd u v = NaN"
  using assms by auto

lemma err_of_zero_den:
  assumes "den H a = Fin 0"
  shows "err_of H a b = PInf \<or> err_of H a b = NaN"
proof -
  have x: "projX H a = PInf \<or> projX H a = NInf \<or> projX H a = NaN"
    unfolding projX_def assms by (rule fdiv_by_zero)
  have y: "projY H a = PInf \<or> projY H a = NInf \<or> projY H a = NaN"
    unfolding projY_def assms by (rule fdiv_by_zero)
  show ?thesis
    unfolding err_of_def dx_of_def dy_of_def
    by (intro fadd_not_finite fmul_square_not_finite fsub_not_finite x y)
qed

lemma not_flt_not_finite: "e = PInf \<or> e = NaN \<Longrightarrow> \<not> flt e (Fin c)"
  by auto

text \<open>
  Claim C1, amended. \<^verbatim>\<open>MatchAll\<close> does not test the denominator. When it is exactly
  zero for a point, both divisions are carried out, the squared error against any
  candidate is plus infinity or a NaN, and the comparison with 100 is false: the
  candidate never sets \<^verbatim>\<open>found\<close>, so that the point is not counted, and is printed
  only if it is the recorded match, marked \<^verbatim>\<open>-\<close> (rejected).
\<close>

theorem zero_denominator_unguarded:
  assumes "den (snd (MatchAll s1 s2 H)) a = Fin 0"
  shows "(err_of (snd (MatchAll s1 s2 H)) a b = PInf \<or> err_of (snd (MatchAll s1 s2 H)) a b = NaN)
       \<and> flt (err_of (snd (MatchAll s1 s2 H)) a b) (Fin 100) = False
       \<and> candidate_step (snd (MatchAll s1 s2 H)) a sift2 j st =
           (fst st, if j = match a
                    then snd st @ [printed_line (snd (MatchAll s1 s2 H)) a j (sift2 j)]
                    else snd st)
       \<and> ml_mark (printed_line (snd (MatchAll s1 s2 H)) a (match a) b) = '' -''
       \<and> fst (candidate_loop (snd (MatchAll s1 s2 H)) a sift2 n2 0 (False, [])) = False"
proof -
  define H' where "H' = snd (MatchAll s1 s2 H)"
  have z: "den H' a = Fin 0"
    using assms by (simp add: H'_def)
  have e: "err_of H' a c = PInf \<or> err_of H' a c = NaN" for c
    by (rule err_of_zero_den [OF z])
  have f: "flt (err_of H' a c) (Fin 100) = False" for c
    using not_flt_not_finite [OF e] by simp
  have "candidate_step H' a sift2 j st =
      (fst st, if j = match a then snd st @ [printed_line H' a j (sift2 j)] else snd st)"
    by (simp add: candidate_step_eq f)
  moreover have "ml_mark (printed_line H' a (match a) b) = '' -''"
    by (simp add: printed_line_def mark_of_def f)
  moreover have "fst (candidate_loop H' a sift2 n2 0 (False, [])) = False"
    by (simp add: candidate_loop_eq f)
  ultimately show ?thesis
    using e [of b] f [of b] unfolding H'_def by (intro conjI)
qed

text \<open>
  The theorem at a point at the origin under a homography whose last coefficient is 0.
\<close>

theorem zero_denominator_unguarded_witness:
  "den (snd (MatchAll (single_set (point_at 0 0 1 0)) (single_set (point_at 0 0 1 0))
        singular_homography)) (point_at 0 0 1 0) = Fin 0
   \<and> err_of (snd (MatchAll (single_set (point_at 0 0 1 0)) (single_set (point_at 0 0 1 0))
        singular_homography)) (point_at 0 0 1 0) (point_at 0 0 1 0) = PInf
   \<and> flt (err_of (snd (MatchAll (single_set (point_at 0 0 1 0)) (single_set (point_at 0 0 1 0))
        singular_homography)) (point_at 0 0 1 0) (point_at 0 0 1 0)) (Fin 100) = False"
proof -
  have z: "den (snd (MatchAll (single_set (point_at 0 0 1 0)) (single_set (point_at 0 0 1 0))
        singular_homography)) (point_at 0 0 1 0) = Fin 0"
    by (simp add: snd_MatchAll den_def overwrite_homography_values example_defs)
  have e: "err_of (snd (MatchAll (single_set (point_at 0 0 1 0)) (single_set (point_at 0 0 1 0))
        singular_homography)) (point_at 0 0 1 0) (point_at 0 0 1 0) = PInf"
    by (simp add: snd_MatchAll geometry_defs overwrite_homography_values example_defs)
  from zero_denominator_unguarded [OF z, THEN conjunct2, THEN conjunct1, of "point_at 0 0 1 0"]
  have "flt (err_of (snd (MatchAll (single_set (point_at 0 0 1 0))
      (single_set (point_at 0 0 1 0)) singular_homography)) (point_at 0 0 1 0)
      (point_at 0 0 1 0)) (Fin 100) = False" .
  with z e show ?thesis
    by (intro conjI)
qed

text \<open>
  Claim C1 as stated fails: under a homography whose last coefficient is 0, the point at
  (1279, 959) has a zero denominator and zero numerators, its error is a NaN and not
  an infinity, and the line of its recorded match is printed from that NaN: the
  conversions \<^verbatim>\<open>(int)sqrt(err)\<close>, \<^verbatim>\<open>(int)dx\<close> and \<^verbatim>\<open>(int)dy\<close> are undefined.
\<close>

theorem zero_denominator_counterexample:
  "den (snd (MatchAll (single_set (point_at 1279 959 1 0)) (single_set (point_at 0 0 1 0))
        singular_homography)) (point_at 1279 959 1 0) = Fin 0
   \<and> err_of (snd (MatchAll (single_set (point_at 1279 959 1 0)) (single_set (point_at 0 0 1 0))
        singular_homography)) (point_at 1279 959 1 0) (point_at 0 0 1 0) = NaN
   \<and> map (\<lambda>L. (ml_mark L, ml_j L, ml_root L, ml_dx L, ml_dy L))
       (mb_lines (mo_blocks (fst (MatchAll (single_set (point_at 1279 959 1 0))
          (single_set (point_at 0 0 1 0)) singular_homography)) ! 0))
     = [('' -'', 0, None, None, None)]"
proof -
  have "mb_lines (mo_blocks (fst (MatchAll (single_set (point_at 1279 959 1 0))
           (single_set (point_at 0 0 1 0)) singular_homography)) ! nat 0) =
       [printed_line (overwrite_homography singular_homography) (point_at 1279 959 1 0) 0
          (point_at 0 0 1 0)]"
    by (subst MatchAll_block_lines) (simp_all add: single_set_def upto_0_0 point_at_def)
  then show ?thesis
    by (simp add: printed_line_def mark_of_def geometry_defs snd_MatchAll
        overwrite_homography_values example_defs)
qed

text \<open>
  The comparison of line 226 is one of rounded values. For the point at (1269, 959) and
  the candidate at \<open>(1 / 2 ^ 24, 0)\<close> the difference \<open>10 - 1 / 2 ^ 24\<close> is rounded to 10 and the
  error is 100, not below the threshold, whereas the exact squared distance is below 100.
\<close>

lemma round32_near_10: "round32 (10 - 1 / 2 ^ 24) = Fin 10"
proof -
  define x :: real where "x = 10 - 1 / 2 ^ 24"
  have "pow2 3 \<le> \<bar>x\<bar>" "\<bar>x\<bar> < pow2 (3 + 1)" "(- 126 :: int) \<le> 3"
    by (simp_all add: x_def pow2_def)
  from rnd_binade [OF this, of 24 127]
  have "round32 x = Fin 10"
    by (simp add: round32_def x_def pow2_def rhe_def Let_def)
  then show ?thesis
    by (simp add: x_def)
qed

lemma err_rounded_to_threshold:
  "err_of (overwrite_homography identity_homography) (point_at 1269 959 1 0)
     (point_at (1 / 2 ^ 24) 0 1 0) = Fin 100
   \<and> \<not> flt (err_of (overwrite_homography identity_homography) (point_at 1269 959 1 0)
     (point_at (1 / 2 ^ 24) 0 1 0)) (Fin 100)
   \<and> (10 - 1 / 2 ^ 24 :: real)\<^sup>2 + 0\<^sup>2 < 100"
proof -
  have "(10 - 1 / 2 ^ 24 :: real)\<^sup>2 + 0\<^sup>2 < 100"
    by (simp add: power2_eq_square)
  moreover have "err_of (overwrite_homography identity_homography) (point_at 1269 959 1 0)
     (point_at (1 / 2 ^ 24) 0 1 0) = Fin 100"
    using round32_near_10
    by (simp add: geometry_defs overwrite_homography_values example_defs)
  ultimately show ?thesis
    by simp
qed

section \<open>Properties of the overlay renderer\<close>

text \<open>A pixel of the image, in row \<open>r\<close> and column \<open>c\<close>, has its offset inside the buffer.\<close>

lemma cell_offset:
  assumes "0 \<le> r" and "r < h" and "0 \<le> c" and "c < w"
  shows "0 \<le> r * w + c \<and> r * w + c < w * (h::int)"
proof -
  have w: "0 < w" using assms by simp
  have 0: "0 \<le> r * w" using assms w by simp
  have 1: "r * w + c < (r + 1) * w"
    using assms by (simp add: distrib_right)
  have 2: "(r + 1) * w \<le> h * w"
    using assms w by (intro mult_right_mono) simp_all
  from 1 2 have "r * w + c < h * w"
    by (rule less_le_trans)
  then have "r * w + c < w * h"
    by (simp only: mult.commute [of h w])
  with 0 assms show ?thesis by simp
qed

text \<open>
  A marker loop all of whose offsets lie inside the buffer succeeds, and assigns the
  value at these offsets and nowhere else.
\<close>

lemma store_ok:
  "0 \<le> p \<Longrightarrow> p < w * h \<Longrightarrow> store w h p v g = Inr (g(p := v))"
  by (simp add: store_def)

lemma marker_step_ok:
  assumes "\<forall>q \<in> cross w p k. 0 \<le> q \<and> q < w * h" and "w * h \<le> 2 ^ 31"
  shows "marker_step w h p v k g = Inr (\<lambda>q. if q \<in> cross w p k then v else g q)"
proof -
  have r: "0 \<le> p + k * w \<and> p + k * w < w * h" "0 \<le> p - k * w \<and> p - k * w < w * h"
    "0 \<le> p + k \<and> p + k < w * h" "0 \<le> p - k \<and> p - k < w * h"
    using assms(1) by (simp_all add: cross_def)
  then have "int_ok (k * w)" "int_ok (p + k * w)" "int_ok (p - k * w)" "int_ok (p + k)"
    "int_ok (p - k)"
    using assms(2) unfolding int_ok_def by linarith+
  with r have "marker_step w h p v k g =
      Inr (g(p + k * w := v, p - k * w := v, p + k := v, p - k := v))"
    by (simp add: marker_step_def store_ok)
  moreover have "g(p + k * w := v, p - k * w := v, p + k := v, p - k := v) =
      (\<lambda>q. if q \<in> cross w p k then v else g q)"
    by (rule ext) (simp add: cross_def)
  ultimately show ?thesis by simp
qed

lemma for_each_marker_step:
  assumes "\<forall>k \<in> set ks. \<forall>q \<in> cross w p k. 0 \<le> q \<and> q < w * h" and "w * h \<le> 2 ^ 31"
  shows "for_each (marker_step w h p v) ks g =
           Inr (\<lambda>q. if \<exists>k \<in> set ks. q \<in> cross w p k then v else g q)"
  using assms(1)
proof (induction ks arbitrary: g)
  case Nil
  show ?case by simp
next
  case (Cons k ks)
  have "marker_step w h p v k g = Inr (\<lambda>q. if q \<in> cross w p k then v else g q)"
    using Cons.prems assms(2) by (intro marker_step_ok) simp_all
  moreover have "for_each (marker_step w h p v) ks (\<lambda>q. if q \<in> cross w p k then v else g q) =
      Inr (\<lambda>q. if \<exists>k' \<in> set ks. q \<in> cross w p k' then v
                else if q \<in> cross w p k then v else g q)"
    using Cons.prems by (intro Cons.IH) simp
  ultimately show ?case
    by (auto intro!: ext)
qed

text \<open>
  With a radius that is at most \<open>x\<close>, \<open>y\<close>, \<open>w - x - 2\<close> and \<open>h - y - 2\<close>, every offset of
  either pass is that of a pixel of the image.
\<close>

lemma cross_first_pass:
  assumes "s \<le> x" "s \<le> y" "s \<le> w - x - 2" "s \<le> h - y - 2" "0 \<le> k" "k < s"
  shows "\<forall>q \<in> cross w (y * w + x + (w + 1)) k. 0 \<le> q \<and> q < w * h"
proof -
  have e: "y * w + x + (w + 1) + k * w = (y + 1 + k) * w + (x + 1)"
    "y * w + x + (w + 1) - k * w = (y + 1 - k) * w + (x + 1)"
    "y * w + x + (w + 1) + k = (y + 1) * w + (x + 1 + k)"
    "y * w + x + (w + 1) - k = (y + 1) * w + (x + 1 - k)"
    by (simp_all add: algebra_simps)
  show ?thesis
    unfolding cross_def e using assms
    by (auto intro!: cell_offset [THEN conjunct1] cell_offset [THEN conjunct2])
qed

lemma cross_second_pass:
  assumes "s \<le> x" "s \<le> y" "s \<le> w - x - 2" "s \<le> h - y - 2" "0 \<le> k" "k < s"
  shows "\<forall>q \<in> cross w (y * w + x) k. 0 \<le> q \<and> q < w * h"
proof -
  have e: "y * w + x + k * w = (y + k) * w + x"
    "y * w + x - k * w = (y - k) * w + x"
    "y * w + x + k = y * w + (x + k)"
    "y * w + x - k = y * w + (x - k)"
    by (simp_all add: algebra_simps)
  show ?thesis
    unfolding cross_def e using assms
    by (auto intro!: cell_offset [THEN conjunct1] cell_offset [THEN conjunct2])
qed

lemma marker_passes_result:
  assumes "s \<le> x" "s \<le> y" "s \<le> w - x - 2" "s \<le> h - y - 2"
    and fit: "0 \<le> x" "x < w" "0 \<le> y" "y < h" "w * (h + 1) < 2 ^ 31"
  shows "marker_passes w h x y s g =
           Inr (\<lambda>q. if \<exists>k \<in> set [0..s - 1]. q \<in> cross w (y * w + x) k then Fin 255
                     else if \<exists>k \<in> set [0..s - 1]. q \<in> cross w (y * w + x + (w + 1)) k
                       then Fin 0
                     else g q)"
proof -
  have a: "\<forall>k \<in> set [0..s - 1]. \<forall>q \<in> cross w (y * w + x + (w + 1)) k. 0 \<le> q \<and> q < w * h"
    using cross_first_pass [OF assms(1-4)] by auto
  have b: "\<forall>k \<in> set [0..s - 1]. \<forall>q \<in> cross w (y * w + x) k. 0 \<le> q \<and> q < w * h"
    using cross_second_pass [OF assms(1-4)] by auto
  have p: "0 \<le> y * w + x \<and> y * w + x < w * h"
    using fit by (intro cell_offset) simp_all
  have yw: "0 \<le> y * w" "y * w \<le> y * w + x"
    using fit by simp_all
  have wh: "w * (h + 1) = w * h + w"
    by (simp add: algebra_simps)
  have "0 \<le> w * h"
    using fit by simp
  then have le: "w * h \<le> 2 ^ 31"
    using fit(2,1,5) unfolding wh by linarith
  have ok: "int_ok (y * w)" "int_ok (y * w + x)" "int_ok (w + 1)" "int_ok (y * w + x + (w + 1))"
    using p yw fit(1,2,5) \<open>0 \<le> w * h\<close> unfolding wh int_ok_def by linarith+
  show ?thesis
    unfolding marker_passes_def Let_def
    by (simp only: ok for_each_marker_step [OF a le] for_each_marker_step [OF b le] sum.case
        add_diff_cancel_right' simp_thms if_True)
qed

text \<open>The radius that line 290 computes is capped by the four distances.\<close>

lemma marker_geometry_bounds:
  assumes "marker_geometry w h p = Inr (x, y, s)"
  shows "s \<le> x" "s \<le> y" "s \<le> w - x - 2" "s \<le> h - y - 2"
  using assms by (auto simp: marker_geometry_def split: option.splits if_splits)

text \<open>
  Claim C4, amended. Let \<open>x\<close> and \<open>y\<close> be the values of \<^verbatim>\<open>(int)(xpos + 0.5)\<close> and
  \<^verbatim>\<open>(int)(ypos + 0.5)\<close> and \<open>sc\<close> the value of \<^verbatim>\<open>(int)(1.41*scale)\<close>, the sum and the
  products being those of the type \<^verbatim>\<open>double\<close> with the number that the literal \<^verbatim>\<open>1.41\<close>
  denotes. If \<open>(x, y)\<close> lies inside the image and the image, with one more row, has
  fewer than \<open>2 ^ 31\<close> pixels, then the radius of the marker is the minimum of \<open>x\<close>,
  \<open>y\<close>, \<open>w - x - 2\<close>, \<open>h - y - 2\<close> and \<open>sc\<close>, and both passes run without a write outside
  the buffer and without an overflow of \<^verbatim>\<open>int\<close>: the buffer they leave differs from the
  one they found only at offsets from 0 up to, but not including, \<open>w * h\<close>.
\<close>

theorem marker_inside_buffer:
  assumes "f2i (dadd (xpos p) (Fin (1 / 2))) = Some x"
    and "f2i (dadd (ypos p) (Fin (1 / 2))) = Some y"
    and "f2i (dmul (Fin literal_1_41) (scale p)) = Some sc"
    and "0 \<le> x" and "x < w" and "0 \<le> y" and "y < h" and "w * (h + 1) < 2 ^ 31"
  shows "marker_geometry w h p =
           Inr (x, y, min x (min y (min (w - x - 2) (min (h - y - 2) sc))))
       \<and> (\<exists>h_img'. draw_marker w h p h_img = Inr h_img'
             \<and> (\<forall>q. h_img' q \<noteq> h_img q \<longrightarrow> 0 \<le> q \<and> q < w * h \<and> int_ok q))"
proof -
  define s where "s = min x (min y (min (w - x - 2) (min (h - y - 2) sc)))"
  have wh: "w * (h + 1) = w * h + w"
    by (simp add: algebra_simps)
  have "0 \<le> w * h" "w \<le> w * h"
    using assms(4-7) by (simp_all add: mult_le_cancel_left1)
  then have big: "w < 2 ^ 31" "w * h < 2 ^ 31"
    using assms(4,5,8) unfolding wh by linarith+
  have "h \<le> w * h"
    using assms(4-7) by (simp add: mult_le_cancel_right1)
  then have "h < 2 ^ 31"
    using big by linarith
  then have "int_ok (w - x)" "int_ok (w - x - 2)" "int_ok (h - y)" "int_ok (h - y - 2)"
    using assms(4-7) big unfolding int_ok_def by linarith+
  then have geo: "marker_geometry w h p = Inr (x, y, s)"
    using assms(1-3) by (simp add: marker_geometry_def s_def)
  note b = marker_geometry_bounds [OF geo]
  have res: "draw_marker w h p h_img =
      Inr (\<lambda>q. if \<exists>k \<in> set [0..s - 1]. q \<in> cross w (y * w + x) k then Fin 255
                else if \<exists>k \<in> set [0..s - 1]. q \<in> cross w (y * w + x + (w + 1)) k
                  then Fin 0
                else h_img q)"
    by (simp add: draw_marker_def geo marker_passes_result [OF b assms(4-8)])
  have "0 \<le> q \<and> q < w * h \<and> int_ok q"
    if "(if \<exists>k \<in> set [0..s - 1]. q \<in> cross w (y * w + x) k then Fin 255
         else if \<exists>k \<in> set [0..s - 1]. q \<in> cross w (y * w + x + (w + 1)) k then Fin 0
         else h_img q) \<noteq> h_img q" for q
  proof -
    from that consider k where "0 \<le> k" "k < s" "q \<in> cross w (y * w + x) k"
      | k where "0 \<le> k" "k < s" "q \<in> cross w (y * w + x + (w + 1)) k"
      by (auto split: if_splits)
    then have "0 \<le> q \<and> q < w * h"
    proof cases
      case 1
      then show ?thesis using cross_second_pass [OF b, of k] by blast
    next
      case 2
      then show ?thesis using cross_first_pass [OF b, of k] by blast
    qed
    then show ?thesis
      using big unfolding int_ok_def by linarith
  qed
  then show ?thesis
    unfolding s_def [symmetric] res using geo by blast
qed

text \<open>The conversions of lines 288 to 290 at the concrete inputs.\<close>

lemma round64_halves:
  "round64 (3 / 2) = Fin (3 / 2)" "round64 (9 / 2) = Fin (9 / 2)"
  "round64 (8191 / 2) = Fin (8191 / 2)"
  using round64_dyadic [of 3 1] round64_dyadic [of 9 1] round64_dyadic [of 8191 1]
  by simp_all

lemma literal_1_41_times:
  "dmul (Fin literal_1_41) (Fin 2) = Fin (6350075474592399 / 2 ^ 51)"
  "dmul (Fin literal_1_41) (Fin 4) = Fin (6350075474592399 / 2 ^ 50)"
  using round64_dyadic [of 6350075474592399 51] round64_dyadic [of 6350075474592399 50]
  by (simp_all add: literal_1_41_def)

lemma literal_1_41_times_2900:
  "dmul (Fin literal_1_41) (Fin 2900) = Fin (8991806091952127 / 2 ^ 41)"
proof -
  define x :: real where "x = 6350075474592399 / 2 ^ 52 * 2900"
  have "pow2 11 \<le> \<bar>x\<bar>" "\<bar>x\<bar> < pow2 (11 + 1)" "(- 1022 :: int) \<le> 11"
    by (simp_all add: x_def pow2_def)
  from rnd_binade [OF this, of 53 1023]
  have "round64 x = Fin (8991806091952127 / 2 ^ 41)"
    by (simp add: round64_def x_def pow2_def rhe_def Let_def)
  then show ?thesis
    by (simp add: literal_1_41_def x_def)
qed

lemma literal_1_41_scaled:
  "f2i (round64 (literal_1_41 * 2)) = Some 2"
  "f2i (round64 (literal_1_41 * 4)) = Some 5"
  "f2i (round64 (literal_1_41 * 2900)) = Some 4088"
proof -
  have a: "\<lfloor>6350075474592399 / 2 ^ 51 :: real\<rfloor> = 2"
    by (simp add: floor_eq_iff)
  have b: "\<lfloor>6350075474592399 / 2 ^ 50 :: real\<rfloor> = 5"
    by (simp add: floor_eq_iff)
  have c: "\<lfloor>8991806091952127 / 2 ^ 41 :: real\<rfloor> = 4088"
    by (simp add: floor_eq_iff)
  show "f2i (round64 (literal_1_41 * 2)) = Some 2"
    using literal_1_41_times(1) a by (simp add: trunc_def)
  show "f2i (round64 (literal_1_41 * 4)) = Some 5"
    using literal_1_41_times(2) b by (simp add: trunc_def)
  show "f2i (round64 (literal_1_41 * 2900)) = Some 4088"
    using literal_1_41_times_2900 c by (simp add: trunc_def)
qed

lemma upto_0_1: "[0..(2::int) - 1] = [0, 1]" "[0..(1::int)] = [0, 1]"
  by (simp_all add: upto_rec1)

text \<open>
  The theorem at the point at (1, 1) with scale 4 in an image of 100 by 100 pixels: the
  product is 5 after the conversion, and the radius is capped at 1 by the distance to
  the edge.
\<close>

theorem marker_inside_buffer_witness:
  "marker_geometry 100 100 (point_at 1 1 4 0) = Inr (1, 1, 1)
   \<and> (\<exists>h_img'. draw_marker 100 100 (point_at 1 1 4 0) (\<lambda>q. Fin 7) = Inr h_img')"
proof -
  have a: "f2i (dadd (xpos (point_at 1 1 4 0)) (Fin (1 / 2))) = Some 1"
    "f2i (dadd (ypos (point_at 1 1 4 0)) (Fin (1 / 2))) = Some 1"
    "f2i (dmul (Fin literal_1_41) (scale (point_at 1 1 4 0))) = Some 5"
    "(0::int) \<le> 1" "(1::int) < 100" "(0::int) \<le> 1" "(1::int) < 100"
    "(100::int) * (100 + 1) < 2 ^ 31"
    by (simp_all add: point_at_def trunc_def round64_halves literal_1_41_scaled)
  from marker_inside_buffer [OF a, of "\<lambda>q. Fin 7"] show ?thesis
    by auto
qed

text \<open>
  Claim C4 as stated fails: the radius is not always the one that the floor of the
  exact product \<open>1.41 * scale\<close> gives. At the point at (4095, 4095) with scale 2900 in an
  image of 8192 by 8192 pixels the exact product is 4089, the product of the code is
  below 4089, since the literal \<^verbatim>\<open>1.41\<close> denotes a number below 141/100, and the radius
  of the code is 4088.
\<close>

theorem marker_radius_counterexample:
  "marker_geometry 8192 8192 (point_at 4095 4095 2900 0) = Inr (4095, 4095, 4088)
   \<and> claimed_radius 8192 8192 4095 4095 2900 = 4089"
  by (simp add: marker_geometry_def point_at_def trunc_def round64_halves
      literal_1_41_scaled int_ok_def claimed_radius_def)

text \<open>
  Claim C5, amended. For every feature point whose rounded position \<open>(x, y)\<close> lies inside
  an image that, with one more row, has fewer than \<open>2 ^ 31\<close> pixels, the renderer draws
  the pass of zero intensity first, centred one row and one column after the rounded
  position, and then the pass of maximal intensity, centred at the rounded position,
  with the same radius \<open>s\<close>. So a pixel that both passes reach has maximal intensity in
  the end, a pixel that only the first pass reaches has zero intensity, and every other
  pixel is unchanged.
\<close>

theorem marker_zero_pass_then_max_pass:
  assumes "marker_geometry w h p = Inr (x, y, s)"
    and "0 \<le> x" and "x < w" and "0 \<le> y" and "y < h" and "w * (h + 1) < 2 ^ 31"
  shows "draw_marker w h p g =
           (case for_each (marker_step w h (y * w + x + (w + 1)) (Fin 0)) [0..s - 1] g of
              Inl e \<Rightarrow> Inl e
            | Inr g1 \<Rightarrow> for_each (marker_step w h (y * w + x) (Fin 255)) [0..s - 1] g1)
       \<and> draw_marker w h p g =
           Inr (\<lambda>q. if \<exists>k \<in> set [0..s - 1]. q \<in> cross w (y * w + x) k then Fin 255
                     else if \<exists>k \<in> set [0..s - 1]. q \<in> cross w (y * w + x + (w + 1)) k
                       then Fin 0
                     else g q)"
proof -
  have d: "draw_marker w h p g = marker_passes w h x y s g"
    by (simp add: draw_marker_def assms(1))
  note r = marker_passes_result [OF marker_geometry_bounds [OF assms(1)] assms(2-6), of g]
  have ok: "int_ok (y * w) \<and> int_ok (y * w + x) \<and> int_ok (w + 1)
      \<and> int_ok (y * w + x + (w + 1))"
    using r by (auto simp: marker_passes_def Let_def split: if_splits)
  have "marker_passes w h x y s g =
      (case for_each (marker_step w h (y * w + x + (w + 1)) (Fin 0)) [0..s - 1] g of
         Inl e \<Rightarrow> Inl e
       | Inr g1 \<Rightarrow> for_each (marker_step w h (y * w + x) (Fin 255)) [0..s - 1] g1)"
    unfolding marker_passes_def Let_def add_diff_cancel_right' using ok by simp
  with d r show ?thesis
    by (simp only:)
qed

text \<open>
  The theorem at the point at (4, 4) with scale 2 in an image of 10 by 10 pixels, read at
  an offset that both passes reach, at the centres of the two passes and at an offset
  that neither reaches.
\<close>

theorem marker_zero_pass_then_max_pass_witness:
  "marker_geometry 10 10 (point_at 4 4 2 0) = Inr (4, 4, 2)
   \<and> map_sum id (\<lambda>g. [g 45, g 55, g 44, g 0])
        (draw_marker 10 10 (point_at 4 4 2 0) (\<lambda>q. Fin 7))
     = Inr [Fin 255, Fin 0, Fin 255, Fin 7]"
proof -
  have a: "marker_geometry 10 10 (point_at 4 4 2 0) = Inr (4, 4, 2)"
    by (simp add: marker_geometry_def point_at_def trunc_def round64_halves
        literal_1_41_scaled int_ok_def)
  have b: "(0::int) \<le> 4" "(4::int) < 10" "(0::int) \<le> 4" "(4::int) < 10"
    "(10::int) * (10 + 1) < 2 ^ 31"
    by simp_all
  show ?thesis
    using a marker_zero_pass_then_max_pass [OF a b, of "\<lambda>q. Fin 7", THEN conjunct2,
        unfolded upto_0_1]
    by (simp add: cross_def)
qed

text \<open>
  Claim C5 as stated fails: for the same point on a black image, the pixel at offset 45
  is reached by both passes; \<^verbatim>\<open>PrintMatchData\<close> leaves it at 255, the order of the claim
  would leave it at 0.
\<close>

theorem marker_claimed_order_counterexample:
  "marker_geometry 10 10 (point_at 4 4 2 0) = Inr (4, 4, 2)
   \<and> map_sum id (\<lambda>g. g 45) (draw_marker 10 10 (point_at 4 4 2 0) (\<lambda>q. Fin 0))
       = Inr (Fin 255)
   \<and> map_sum id (\<lambda>g. g 45) (marker_passes_claimed_order 10 10 4 4 2 (\<lambda>q. Fin 0))
       = Inr (Fin 0)"
proof -
  have a: "marker_geometry 10 10 (point_at 4 4 2 0) = Inr (4, 4, 2)"
    by (simp add: marker_geometry_def point_at_def trunc_def round64_halves
        literal_1_41_scaled int_ok_def)
  have b: "map_sum id (\<lambda>g. g 45) (draw_marker 10 10 (point_at 4 4 2 0) (\<lambda>q. Fin 0))
       = Inr (Fin 255)"
    unfolding draw_marker_def a marker_passes_def Let_def upto_0_1
    by (simp add: upto_0_1 marker_step_def store_def int_ok_def)
  have c: "map_sum id (\<lambda>g. g 45) (marker_passes_claimed_order 10 10 4 4 2 (\<lambda>q. Fin 0))
       = Inr (Fin 0)"
    unfolding marker_passes_claimed_order_def Let_def upto_0_1
    by (simp add: upto_0_1 marker_step_def store_def int_ok_def)
  from a b c show ?thesis by (intro conjI)
qed

text \<open>A positive \<^verbatim>\<open>int\<close> is not converted to zero.\<close>

lemma round32_pos:
  assumes "1 \<le> x"
  shows "round32 x \<noteq> Fin 0"
proof
  assume z: "round32 x = Fin 0"
  have x0: "x \<noteq> 0" using assms by simp
  have "0 \<le> log 2 \<bar>x\<bar>" using assms by simp
  then have "0 \<le> exponent x"
    by (simp add: exponent_def)
  then have e: "max (exponent x) (- 126) = exponent x"
    by simp
  define q where "q = exponent x - 23"
  have "pow2 (exponent x) / pow2 q \<le> \<bar>x\<bar> / pow2 q"
    using exponent_bounds(1) [OF x0] pow2_pos [of q]
    by (intro divide_right_mono) (simp_all only: less_imp_le)
  moreover have "pow2 (exponent x) = pow2 q * pow2 23"
    using pow2_add [of q 23] by (simp add: q_def)
  moreover have "pow2 23 = 2 ^ 23"
    by (simp add: pow2_def)
  moreover have "\<bar>x\<bar> = x"
    using assms by simp
  ultimately have "2 ^ 23 \<le> x / pow2 q"
    using pow2_pos [of q] by simp
  moreover have "(1::real) \<le> 2 ^ 23"
    by simp
  ultimately have "of_int 1 \<le> x / pow2 q"
    unfolding of_int_1 by (rule order_trans [rotated])
  then have "1 \<le> \<lfloor>x / pow2 q\<rfloor>"
    by (rule le_floor_iff [THEN iffD2])
  then have "0 < rhe (x / pow2 q)"
    using rhe_bounds(1) [of "x / pow2 q"] by linarith
  moreover have "of_int (rhe (x / pow2 q)) * pow2 q = 0"
    using z x0 by (auto simp: round32_def rnd_def Let_def e q_def split: if_splits)
  moreover have "pow2 q \<noteq> 0"
    using pow2_pos [of q] by linarith
  ultimately show False
    by (simp only: mult_eq_0_iff of_int_eq_0_iff) linarith
qed

text \<open>
  Claim C10. For a point and its match whose position delta \<open>(dx, dy)\<close>, as the code
  computes it in single precision, is finite and below 1 in both absolute values, the
  number of steps is 0, the loop over \<open>[0..0 - 1]\<close> runs no iteration whatever its body,
  and the line drawing leaves the buffer as it was. In every iteration of the loop the
  divisor \<^verbatim>\<open>len\<close>, converted to \<^verbatim>\<open>float\<close>, is not zero, since the loop variable lies from
  0 to \<open>len - 1\<close>.
\<close>

theorem sub_pixel_match_draws_no_line:
  assumes "read_point siftData2 (match p) = Inr q"
    and "fsub (xpos q) (xpos p) = Fin dx" and "fsub (ypos q) (ypos p) = Fin dy"
    and "max \<bar>dx\<bar> \<bar>dy\<bar> < 1"
  shows "line_len (fsub (xpos q) (xpos p)) (fsub (ypos q) (ypos p)) = Some 0
       \<and> for_each body [0..(0::int) - 1] h_img = Inr h_img
       \<and> draw_line w h siftData2 p h_img = Inr h_img
       \<and> (\<forall>len l. l \<in> set [0..len - 1] \<longrightarrow> i2f len \<noteq> Fin 0)"
proof -
  define m where "m = (if \<bar>dy\<bar> < \<bar>dx\<bar> then \<bar>dx\<bar> else \<bar>dy\<bar>)"
  have m: "0 \<le> m" "m < 1"
    using assms(4) by (auto simp: m_def)
  then have "\<lfloor>m\<rfloor> = 0"
    by (simp add: floor_eq_iff)
  then have f: "f2i (Fin m) = Some 0"
    using m by (simp add: trunc_def)
  have mm: "(if flt (fabs (Fin dy)) (fabs (Fin dx)) then fabs (Fin dx) else fabs (Fin dy)) = Fin m"
    by (simp add: m_def)
  have len: "line_len (fsub (xpos q) (xpos p)) (fsub (ypos q) (ypos p)) = Some 0"
    unfolding line_len_def assms(2,3) mm by (rule f)
  have empty: "[0..(0::int) - 1] = []"
    by simp
  have loop: "for_each body [0..(0::int) - 1] h_img = Inr h_img"
    by (simp only: empty for_each.simps)
  have line: "draw_line w h siftData2 p h_img = Inr h_img"
    by (simp add: draw_line_def assms(1) len Let_def)
  have "i2f len \<noteq> Fin 0" if "l \<in> set [0..len - 1]" for len l :: int
  proof -
    have "1 \<le> len" using that by simp
    then have "(1::real) \<le> of_int len" by simp
    then show ?thesis
      unfolding i2f_def by (rule round32_pos)
  qed
  with len loop line show ?thesis
    by (intro conjI allI impI)
qed

text \<open>
  The theorem at the point at (3, 3) whose match lies at (3.5, 3.25).
\<close>

theorem sub_pixel_match_draws_no_line_witness:
  "line_len (fsub (Fin (7 / 2)) (Fin 3)) (fsub (Fin (13 / 4)) (Fin 3)) = Some 0
   \<and> draw_line 10 10 (single_set (point_at (7 / 2) (13 / 4) 1 0)) (point_at 3 3 1 0)
       (\<lambda>q. Fin 0) = Inr (\<lambda>q. Fin 0)"
proof -
  have r32: "round32 (1 / 2) = Fin (1 / 2)" "round32 (1 / 4) = Fin (1 / 4)"
    using round32_dyadic [of 1 1] round32_dyadic [of 1 2] by simp_all
  have a: "read_point (single_set (point_at (7 / 2) (13 / 4) 1 0)) (match (point_at 3 3 1 0)) =
      Inr (point_at (7 / 2) (13 / 4) 1 0)"
    "fsub (xpos (point_at (7 / 2) (13 / 4) 1 0)) (xpos (point_at 3 3 1 0)) = Fin (1 / 2)"
    "fsub (ypos (point_at (7 / 2) (13 / 4) 1 0)) (ypos (point_at 3 3 1 0)) = Fin (1 / 4)"
    "max \<bar>1 / 2 :: real\<bar> \<bar>1 / 4\<bar> < 1"
    by (simp_all add: read_point_def single_set_def point_at_def fsub_def r32)
  note r = sub_pixel_match_draws_no_line [OF a, of _ "\<lambda>q. Fin 0" 10 10]
  have x: "xpos (point_at 3 3 1 0) = Fin 3" "ypos (point_at 3 3 1 0) = Fin 3"
    "xpos (point_at (7 / 2) (13 / 4) 1 0) = Fin (7 / 2)"
    "ypos (point_at (7 / 2) (13 / 4) 1 0) = Fin (13 / 4)"
    by (simp_all add: point_at_def)
  have 1: "line_len (fsub (Fin (7 / 2)) (Fin 3)) (fsub (Fin (13 / 4)) (Fin 3)) = Some 0"
    using r [THEN conjunct1] by (simp only: x)
  have 2: "draw_line 10 10 (single_set (point_at (7 / 2) (13 / 4) 1 0)) (point_at 3 3 1 0)
       (\<lambda>q. Fin 0) = Inr (\<lambda>q. Fin 0)"
    using r [THEN conjunct2, THEN conjunct2, THEN conjunct1] .
  from 1 2 show ?thesis by (intro conjI)
qed

text \<open>
  Claim C3 fails on the code. In an image of 8 by 8 pixels, the point at (2, 2) whose
  match lies at (2, 12) has a match line of 10 steps; the step \<^verbatim>\<open>l = 6\<close> computes the
  pixel (2, 8) and assigns to the offset 66, beyond the 64 values of the buffer.
  Nothing clamps or skips the coordinates of the line, whereas the radius of the
  marker is capped by the distance to each edge.
\<close>

theorem match_line_out_of_bounds:
  "PrintMatchData (single_set (point_at 2 2 0 0)) (single_set (point_at 2 12 0 0))
     (blank_image 8 8) = Inl OutOfBoundsWrite"
  by (simp add: PrintMatchData_def blank_image_def single_set_def point_at_def draw_point_def
      draw_line_def read_point_def line_len_def i2f_def fsub_def trunc_def upto_rec1
      line_step_def store_def int_ok_def)

end
